theory Spec2Isabelle
  imports Main "HOL-Library.Finite_Map" "HOL-Library.Sublist" "HOL-Library.Multiset"
begin

section \<open>The thread pool of thread.c: data\<close>

text \<open>
  Pointers are addresses, \<open>0\<close> is \<open>NULL\<close>. A \<open>char\<close> buffer is the list of its bytes;
  the C string it holds is what precedes the first \<open>NUL\<close> byte. The logging macros
  (\<open>TPOOL_LOG\<close>, \<open>TPOOL_ERROR\<close>) write to the logging module only and are left out.
\<close>

type_synonym addr = nat

abbreviation NULL :: addr where
  "NULL \<equiv> 0"

definition MAX_TASK_NAME_LEN :: nat where
  "MAX_TASK_NAME_LEN = 64"

definition INT_MAX :: int where
  "INT_MAX = 2147483647"

definition INT_MIN :: int where
  "INT_MIN = - 2147483648"

definition NUL :: char where
  "NUL = CHR 0x00"

text \<open>The C string stored in a buffer (or passed as an argument): the bytes before the
  first \<open>NUL\<close>.\<close>

definition cstr :: "string \<Rightarrow> string" where
  "cstr buf = takeWhile (\<lambda>c. c \<noteq> NUL) buf"

text \<open>\<open>strncpy(dst, src, n)\<close>: the first \<open>n\<close> bytes of \<open>dst\<close> become the string \<open>src\<close>, cut
  at \<open>n\<close> bytes or padded with \<open>NUL\<close> up to \<open>n\<close> bytes; the rest of \<open>dst\<close> stays.\<close>

definition strncpy :: "string \<Rightarrow> string \<Rightarrow> nat \<Rightarrow> string" where
  "strncpy dst src n = take n (cstr src @ replicate n NUL) @ drop n dst"

text \<open>\<open>snprintf(dst, n, "%s", src)\<close> with \<open>n > 0\<close>: at most \<open>n - 1\<close> bytes of \<open>src\<close>, then one
  \<open>NUL\<close>; the bytes of \<open>dst\<close> after that stay.\<close>

definition snprintf_s :: "string \<Rightarrow> nat \<Rightarrow> string \<Rightarrow> string" where
  "snprintf_s dst n src =
     (let out = take (n - 1) (cstr src)
      in out @ [NUL] @ drop (Suc (length out)) dst)"

text \<open>Memory that \<open>malloc\<close> or the stack hands out for a name: \<open>MAX_TASK_NAME_LEN\<close> bytes.
  Every use below overwrites all of them before reading any (lemma \<open>name_buf_any\<close>).\<close>

definition fresh_buf :: string where
  "fresh_buf = replicate MAX_TASK_NAME_LEN NUL"

text \<open>\<open>task_t\<close> and the queue node \<open>task_node_t\<close>. The fields \<open>function\<close> and \<open>next\<close> of
  the source are \<open>func\<close> and \<open>nxt\<close> here.\<close>

record task_t =
  func :: addr
  arg :: addr
  task_name :: string

record task_node_t =
  task :: task_t
  nxt :: addr

text \<open>\<open>struct thread_pool_s\<close> without the pthread objects: the lock is held for the whole
  of each step below, the condition variable is the \<open>Waiting\<close> state of a worker.\<close>

record thread_pool_s =
  thread_count :: int
  head :: addr
  tail :: addr
  task_queue_size :: int
  shutdown :: int
  started :: int
  running_task_names :: "string list"

text \<open>What the model returns where C leaves the behaviour undefined
  (\<open>InvalidPointer\<close>: a pointer that is not \<open>NULL\<close> and not allocated is dereferenced;
  \<open>SignedOverflow\<close>: an \<open>int\<close> leaves its range), and \<open>Blocked\<close> for a step that
  cannot happen in the state it is asked in.\<close>

datatype fault = InvalidPointer | SignedOverflow | Blocked

text \<open>Where a worker thread is: about to take the lock (\<open>Ready\<close>), inside
  \<open>pthread_cond_wait\<close> (\<open>Waiting\<close>), out of the lock with the task it has dequeued and
  not yet called (\<open>Holding\<close>), inside the call of the task's function (\<open>Running\<close>),
  or gone.\<close>

datatype wstate = Ready | Waiting | Holding task_t | Running task_t | Exited

text \<open>How far the caller of \<open>thread_pool_destroy\<close> that set the flag has got.\<close>

datatype dstate = NotCalled | Joining | Drained | Released

text \<open>What a program that uses the pool can see happen, with the function pointer and
  the argument of the task concerned: a call of \<open>thread_pool_add_task\<close> has returned 0,
  a worker calls the function of a task, the call returns.\<close>

datatype obs = Accepted addr addr | Called addr addr | Returned addr addr

text \<open>History variables, written but never read by the code's model. \<open>log\<close> is written
  by the scheduler (\<open>step\<close> below) and by nothing else. The others are written by the
  callers of the queue operations, from what the operation returned:
  \<open>enqueue_calls\<close> counts the calls of \<open>task_enqueue_internal\<close>, \<open>enqueued\<close> lists the
  tasks of the calls that returned 0, \<open>dequeued\<close> the tasks that \<open>task_dequeue_internal\<close>
  returned, \<open>failed_dequeue_exits\<close> counts the workers that left because a dequeue
  returned \<open>NULL\<close> while the flag was set, and \<open>discarded\<close> lists the tasks that were in
  the queue when \<open>thread_pool_destroy\<close> called the drain.\<close>

record history =
  log :: "obs list"
  enqueue_calls :: nat
  enqueued :: "task_t list"
  dequeued :: "task_t list"
  failed_dequeue_exits :: nat
  discarded :: "task_t list"

text \<open>The state of a program that uses one pool: the address of the pool object, the
  object itself (\<open>None\<close> once it is freed), the allocated queue nodes, the worker threads,
  the caller inside \<open>thread_pool_destroy\<close>, and the history.\<close>

record sys =
  pool_addr :: addr
  pool :: "thread_pool_s option"
  nodes :: "(addr, task_node_t) fmap"
  workers :: "wstate list"
  destroyer :: dstate
  hist :: history

definition no_history :: history where
  "no_history = \<lparr>log = [], enqueue_calls = 0, enqueued = [], dequeued = [],
     failed_dequeue_exits = 0, discarded = []\<rparr>"

section \<open>Task queue\<close>

text \<open>\<open>task_enqueue_internal(pool, task)\<close>; \<open>new_node\<close> is what \<open>malloc\<close> returned. The
  increment of \<open>task_queue_size\<close> is undefined at \<open>INT_MAX\<close>, as is the decrement in the
  dequeue at \<open>INT_MIN\<close>.\<close>

definition task_enqueue_internal :: "task_t \<Rightarrow> addr \<Rightarrow> sys \<Rightarrow> fault + (int \<times> sys)" where
  "task_enqueue_internal t new_node s =
     (if new_node = NULL then Inr (- 1, s)
      else
        (case pool s of
           None \<Rightarrow> Inl InvalidPointer
         | Some p \<Rightarrow>
             let nd = \<lparr>task = t, nxt = NULL\<rparr> in
             (case (if tail p = NULL
                    then Some (fmupd new_node nd (nodes s),
                               p\<lparr>head := new_node, tail := new_node\<rparr>)
                    else (case fmlookup (nodes s) (tail p) of
                            None \<Rightarrow> None
                          | Some last_node \<Rightarrow>
                              Some (fmupd new_node nd
                                      (fmupd (tail p) (last_node\<lparr>nxt := new_node\<rparr>) (nodes s)),
                                    p\<lparr>tail := new_node\<rparr>))) of
                None \<Rightarrow> Inl InvalidPointer
              | Some (ns, p1) \<Rightarrow>
                  if task_queue_size p1 = INT_MAX then Inl SignedOverflow
                  else Inr (0, s\<lparr>pool := Some (p1\<lparr>task_queue_size := task_queue_size p1 + 1\<rparr>),
                                  nodes := ns\<rparr>))))"

text \<open>\<open>task_dequeue_internal(pool)\<close>; \<open>copy\<close> is what \<open>malloc\<close> returned for the copy of
  the task, and the result is the copy (\<open>None\<close> for \<open>NULL\<close>).\<close>

definition task_dequeue_internal :: "addr \<Rightarrow> sys \<Rightarrow> fault + (task_t option \<times> sys)" where
  "task_dequeue_internal copy s =
     (case pool s of
        None \<Rightarrow> Inl InvalidPointer
      | Some p \<Rightarrow>
          if head p = NULL then Inr (None, s)
          else if copy = NULL then Inr (None, s)
          else (case fmlookup (nodes s) (head p) of
                  None \<Rightarrow> Inl InvalidPointer
                | Some node_to_dequeue \<Rightarrow>
                    let p1 = p\<lparr>head := nxt node_to_dequeue\<rparr>;
                        p2 = (if head p1 = NULL then p1\<lparr>tail := NULL\<rparr> else p1)
                    in if task_queue_size p2 = INT_MIN then Inl SignedOverflow
                       else Inr (Some (task node_to_dequeue),
                                 s\<lparr>pool := Some (p2\<lparr>task_queue_size := task_queue_size p2 - 1\<rparr>),
                                   nodes := fmdrop (head p) (nodes s)\<rparr>)))"

text \<open>The loop of \<open>task_queue_destroy_internal\<close>: frees the nodes from \<open>current\<close> on;
  returns the heap left and the tasks of the freed nodes (the code counts them).\<close>

function free_nodes ::
  "(addr, task_node_t) fmap \<Rightarrow> addr \<Rightarrow> task_t list \<Rightarrow> fault + ((addr, task_node_t) fmap \<times> task_t list)"
where
  "free_nodes h current freed =
     (if current = NULL then Inr (h, freed)
      else (case fmlookup h current of
              None \<Rightarrow> Inl InvalidPointer
            | Some nd \<Rightarrow> free_nodes (fmdrop current h) (nxt nd) (freed @ [task nd])))"
  by pat_completeness auto
termination
proof (relation "measure (\<lambda>(h, current, freed). card (fmdom' h))")
  show "wf (measure (\<lambda>(h, current, freed). card (fmdom' h)))"
    by simp
next
  fix h :: "(addr, task_node_t) fmap" and current :: addr and freed :: "task_t list"
    and nd :: task_node_t
  assume "fmlookup h current = Some nd"
  then have "current \<in> fmdom' h"
    by (rule fmdom'I)
  then have "card (fmdom' h - {current}) < card (fmdom' h)"
    by (intro card_Diff1_less) simp_all
  then show "((fmdrop current h, nxt nd, freed @ [task nd]), (h, current, freed))
      \<in> measure (\<lambda>(h, current, freed). card (fmdom' h))"
    by simp
qed

declare free_nodes.simps [simp del]

definition task_queue_destroy_internal :: "sys \<Rightarrow> fault + sys" where
  "task_queue_destroy_internal s =
     (case pool s of
        None \<Rightarrow> Inl InvalidPointer
      | Some p \<Rightarrow>
          (case free_nodes (nodes s) (head p) [] of
             Inl e \<Rightarrow> Inl e
           | Inr (ns, freed) \<Rightarrow>
               Inr (s\<lparr>pool := Some (p\<lparr>head := NULL, tail := NULL, task_queue_size := 0\<rparr>),
                      nodes := ns\<rparr>)))"

text \<open>The tasks in the queue, oldest first: those of the first \<open>task_queue_size\<close> nodes
  that following \<open>next\<close> from \<open>head\<close> visits. No code computes this list; the statements
  and the history use it.\<close>

primrec walk :: "nat \<Rightarrow> (addr, task_node_t) fmap \<Rightarrow> addr \<Rightarrow> task_t list" where
  "walk 0 h p = []"
| "walk (Suc n) h p =
     (if p = NULL then []
      else (case fmlookup h p of None \<Rightarrow> [] | Some nd \<Rightarrow> task nd # walk n h (nxt nd)))"

definition queued_tasks :: "sys \<Rightarrow> task_t list" where
  "queued_tasks s =
     (case pool s of
        None \<Rightarrow> []
      | Some p \<Rightarrow> walk (nat (task_queue_size p)) (nodes s) (head p))"

section \<open>Worker threads\<close>

text \<open>\<open>pthread_cond_signal\<close> unblocks one waiting thread (\<open>w\<close>, when it waits);
  \<open>pthread_cond_broadcast\<close> unblocks all of them.\<close>

definition cond_signal :: "nat \<Rightarrow> wstate list \<Rightarrow> wstate list" where
  "cond_signal w ws = (if w < length ws \<and> ws ! w = Waiting then ws[w := Ready] else ws)"

definition cond_broadcast :: "wstate list \<Rightarrow> wstate list" where
  "cond_broadcast ws = map (\<lambda>x. if x = Waiting then Ready else x) ws"

definition idle_name :: "string \<Rightarrow> string" where
  "idle_name buf =
     (strncpy buf ''[idle]'' (MAX_TASK_NAME_LEN - 1))[MAX_TASK_NAME_LEN - 1 := NUL]"

text \<open>\<open>worker_thread_function\<close>, one pass of its loop from taking the lock to releasing
  it: the wait (the worker sleeps in \<open>pthread_cond_wait\<close> and checks again when woken),
  the exit, the dequeue. After a successful dequeue the worker writes the name of the
  task into its slot and releases the lock, holding the task.\<close>

definition worker_dispatch :: "nat \<Rightarrow> addr \<Rightarrow> sys \<Rightarrow> fault + sys" where
  "worker_dispatch thread_id copy s =
     (if \<not> (thread_id < length (workers s) \<and> workers s ! thread_id = Ready) then Inl Blocked
      else
        (case pool s of
           None \<Rightarrow> Inl InvalidPointer
         | Some p \<Rightarrow>
             if task_queue_size p = 0 \<and> shutdown p = 0
             then Inr (s\<lparr>workers := (workers s)[thread_id := Waiting]\<rparr>)
             else if shutdown p \<noteq> 0 \<and> task_queue_size p = 0
             then Inr (s\<lparr>workers := (workers s)[thread_id := Exited]\<rparr>)
             else
               (case task_dequeue_internal copy s of
                  Inl e \<Rightarrow> Inl e
                | Inr (Some current_task_data, s1) \<Rightarrow>
                    (case pool s1 of
                       None \<Rightarrow> Inl InvalidPointer
                     | Some p1 \<Rightarrow>
                         if \<not> thread_id < length (running_task_names p1) then Inl InvalidPointer
                         else Inr (s1\<lparr>pool := Some (p1\<lparr>running_task_names :=
                                        (running_task_names p1)[thread_id :=
                                           snprintf_s (running_task_names p1 ! thread_id)
                                             MAX_TASK_NAME_LEN (task_name current_task_data)]\<rparr>),
                                      workers := (workers s1)[thread_id := Holding current_task_data],
                                      hist := (hist s1)\<lparr>dequeued :=
                                                dequeued (hist s1) @ [current_task_data]\<rparr>\<rparr>))
                | Inr (None, s1) \<Rightarrow>
                    if shutdown p \<noteq> 0
                    then Inr (s1\<lparr>workers := (workers s1)[thread_id := Exited],
                                 hist := (hist s1)\<lparr>failed_dequeue_exits :=
                                           Suc (failed_dequeue_exits (hist s1))\<rparr>\<rparr>)
                    else Inr s1)))"

text \<open>Outside the lock, the worker calls \<open>current_task_data->function\<close> with
  \<open>current_task_data->arg\<close>. Other threads may take steps between the dequeue and this
  call.\<close>

definition worker_invoke :: "nat \<Rightarrow> sys \<Rightarrow> fault + sys" where
  "worker_invoke thread_id s =
     (if \<not> thread_id < length (workers s) then Inl Blocked
      else
        (case workers s ! thread_id of
           Holding current_task_data \<Rightarrow>
             Inr (s\<lparr>workers := (workers s)[thread_id := Running current_task_data]\<rparr>)
         | _ \<Rightarrow> Inl Blocked))"

text \<open>The rest of the pass: the task's function has returned, the worker takes the lock,
  writes \<open>[idle]\<close> into its slot and releases the lock.\<close>

definition worker_complete :: "nat \<Rightarrow> sys \<Rightarrow> fault + sys" where
  "worker_complete thread_id s =
     (if \<not> thread_id < length (workers s) then Inl Blocked
      else
        (case workers s ! thread_id of
           Running current_task_data \<Rightarrow>
             (case pool s of
                None \<Rightarrow> Inl InvalidPointer
              | Some p \<Rightarrow>
                  if \<not> thread_id < length (running_task_names p) then Inl InvalidPointer
                  else Inr (s\<lparr>pool := Some (p\<lparr>running_task_names :=
                                 (running_task_names p)[thread_id :=
                                    idle_name (running_task_names p ! thread_id)]\<rparr>),
                              workers := (workers s)[thread_id := Ready]\<rparr>))
         | _ \<Rightarrow> Inl Blocked))"

section \<open>Public functions\<close>

text \<open>What the environment answers during \<open>thread_pool_create\<close>: the results of
  \<open>calloc\<close>, \<open>pthread_mutex_init\<close>, \<open>pthread_cond_init\<close>, of the \<open>malloc\<close> calls (for the
  thread array, the name array, name slot \<open>i\<close>, the arguments of worker \<open>i\<close>) and of
  \<open>pthread_create\<close> for worker \<open>i\<close>; and, for the case that a later worker cannot be
  started, whether worker \<open>i\<close> gets to see the flag that is set then (\<open>sees_flag\<close>: it has
  not yet gone to sleep in \<open>pthread_cond_wait\<close>, or a wakeup that no signal caused
  reaches it).\<close>

record create_env =
  pool_mem :: addr
  mutex_init :: int
  cond_init :: int
  threads_mem :: addr
  names_mem :: addr
  name_mem :: "nat \<Rightarrow> addr"
  args_mem :: "nat \<Rightarrow> addr"
  thread_create :: "nat \<Rightarrow> int"
  sees_flag :: "nat \<Rightarrow> bool"

definition no_pool :: sys where
  "no_pool = \<lparr>pool_addr = NULL, pool = None, nodes = fmempty, workers = [],
     destroyer = NotCalled, hist = no_history\<rparr>"

text \<open>The first \<open>i\<close> rounds of the loop that allocates the name slots (\<open>None\<close> when a
  round fails), and of the loop that starts the workers (\<open>Inl j\<close> when round \<open>j\<close> fails,
  after the workers \<open>0\<close> to \<open>j - 1\<close> were started).\<close>

primrec init_names :: "(nat \<Rightarrow> addr) \<Rightarrow> nat \<Rightarrow> string list option" where
  "init_names m 0 = Some []"
| "init_names m (Suc i) =
     (case init_names m i of
        None \<Rightarrow> None
      | Some names \<Rightarrow> if m i = NULL then None else Some (names @ [idle_name fresh_buf]))"

primrec spawn_workers :: "create_env \<Rightarrow> nat \<Rightarrow> nat + wstate list" where
  "spawn_workers e 0 = Inr []"
| "spawn_workers e (Suc i) =
     (case spawn_workers e i of
        Inl j \<Rightarrow> Inl j
      | Inr ws \<Rightarrow>
          if args_mem e i = NULL then Inl i
          else if thread_create e i \<noteq> 0 then Inl i
          else Inr (ws @ [Ready]))"

text \<open>\<open>thread_pool_create(num_threads)\<close>: the handle (\<open>NULL\<close> on failure) and the state,
  or \<open>None\<close> when the call does not return. A worker that runs before the last one is
  started can only reach its wait (the queue is empty, the flag is clear), which changes
  nothing the rest of the function reads; so the workers are all \<open>Ready\<close> in the state
  returned. When worker \<open>j\<close> cannot be started, the function sets \<open>shutdown\<close> without
  taking the lock and without a broadcast, and joins the workers \<open>0\<close> to \<open>j - 1\<close>: a
  worker asleep in \<open>pthread_cond_wait\<close> is not woken, its join does not return, and
  neither does the call.\<close>

definition thread_pool_create :: "int \<Rightarrow> create_env \<Rightarrow> (addr \<times> sys) option" where
  "thread_pool_create num_threads e =
     (if num_threads \<le> 0 then Some (NULL, no_pool)
      else if pool_mem e = NULL then Some (NULL, no_pool)
      else if mutex_init e \<noteq> 0 then Some (NULL, no_pool)
      else if cond_init e \<noteq> 0 then Some (NULL, no_pool)
      else if threads_mem e = NULL then Some (NULL, no_pool)
      else if names_mem e = NULL then Some (NULL, no_pool)
      else
        (case init_names (name_mem e) (nat num_threads) of
           None \<Rightarrow> Some (NULL, no_pool)
         | Some names \<Rightarrow>
             (case spawn_workers e (nat num_threads) of
                Inl j \<Rightarrow>
                  if list_all (sees_flag e) [0..<j] then Some (NULL, no_pool) else None
              | Inr ws \<Rightarrow>
                  Some (pool_mem e,
                        \<lparr>pool_addr = pool_mem e,
                         pool = Some \<lparr>thread_count = num_threads, head = NULL, tail = NULL,
                                  task_queue_size = 0, shutdown = 0, started = int (length ws),
                                  running_task_names = names\<rparr>,
                         nodes = fmempty, workers = ws, destroyer = NotCalled,
                         hist = no_history\<rparr>))))"

text \<open>\<open>thread_pool_add_task(pool, function, arg, task_name)\<close>: \<open>task_name\<close> is \<open>None\<close>
  for a \<open>NULL\<close> pointer, \<open>new_node\<close> is what \<open>malloc\<close> returns in the enqueue, \<open>w\<close> the
  worker that \<open>pthread_cond_signal\<close> unblocks. The history notes the call of the enqueue
  and, when the call returned 0, its task.\<close>

definition thread_pool_add_task ::
  "addr \<Rightarrow> addr \<Rightarrow> addr \<Rightarrow> string option \<Rightarrow> addr \<Rightarrow> nat \<Rightarrow> sys \<Rightarrow> fault + (int \<times> sys)"
where
  "thread_pool_add_task h function_ptr a name new_node w s =
     (if h = NULL \<or> function_ptr = NULL then Inr (- 1, s)
      else if h \<noteq> pool_addr s then Inl InvalidPointer
      else
        (case pool s of
           None \<Rightarrow> Inl InvalidPointer
         | Some p \<Rightarrow>
             if shutdown p \<noteq> 0 then Inr (- 1, s)
             else
               let new_task = \<lparr>func = function_ptr, arg = a,
                     task_name =
                       (case name of
                          Some src \<Rightarrow>
                            (strncpy fresh_buf src (MAX_TASK_NAME_LEN - 1))
                              [MAX_TASK_NAME_LEN - 1 := NUL]
                        | None \<Rightarrow>
                            (strncpy fresh_buf ''unnamed_task'' (MAX_TASK_NAME_LEN - 1))
                              [MAX_TASK_NAME_LEN - 1 := NUL])\<rparr>
               in (case task_enqueue_internal new_task new_node s of
                     Inl e \<Rightarrow> Inl e
                   | Inr (r, s1) \<Rightarrow>
                       let s2 = s1\<lparr>hist := (hist s1)
                                  \<lparr>enqueue_calls := Suc (enqueue_calls (hist s1)),
                                   enqueued := (if r = 0 then enqueued (hist s1) @ [new_task]
                                                else enqueued (hist s1))\<rparr>\<rparr>
                       in if r \<noteq> 0 then Inr (- 1, s2)
                          else Inr (0, s2\<lparr>workers := cond_signal w (workers s2)\<rparr>))))"

text \<open>\<open>thread_pool_destroy(pool)\<close> in its three stretches. First, up to the join loop:
  the result is the value returned, or \<open>None\<close> when the caller goes on to join.\<close>

definition thread_pool_destroy_signal :: "addr \<Rightarrow> sys \<Rightarrow> fault + (int option \<times> sys)" where
  "thread_pool_destroy_signal h s =
     (if h = NULL then Inr (Some (- 1), s)
      else if h \<noteq> pool_addr s then Inl InvalidPointer
      else
        (case pool s of
           None \<Rightarrow> Inl InvalidPointer
         | Some p \<Rightarrow>
             if shutdown p \<noteq> 0 then Inr (Some 0, s)
             else Inr (None, s\<lparr>pool := Some (p\<lparr>shutdown := 1\<rparr>),
                                workers := cond_broadcast (workers s),
                                destroyer := Joining\<rparr>)))"

text \<open>Second, the join loop and the drain: \<open>pthread_join\<close> returns for a thread that has
  exited, so the loop is through when every worker has. The history notes the tasks
  that are in the queue when the drain is called.\<close>

definition thread_pool_destroy_join :: "sys \<Rightarrow> fault + sys" where
  "thread_pool_destroy_join s =
     (if destroyer s \<noteq> Joining then Inl Blocked
      else if \<not> list_all (\<lambda>w. w = Exited) (workers s) then Inl Blocked
      else
        (case task_queue_destroy_internal s of
           Inl e \<Rightarrow> Inl e
         | Inr s1 \<Rightarrow>
             Inr (s1\<lparr>destroyer := Drained,
                     hist := (hist s1)\<lparr>discarded := discarded (hist s1) @ queued_tasks s\<rparr>\<rparr>)))"

text \<open>Third, the release of the name slots, the lock, the condition variable, the
  thread array and the pool itself; the function returns 0.\<close>

definition thread_pool_destroy_release :: "sys \<Rightarrow> fault + (int \<times> sys)" where
  "thread_pool_destroy_release s =
     (if destroyer s \<noteq> Drained then Inl Blocked
      else
        (case pool s of
           None \<Rightarrow> Inl InvalidPointer
         | Some p \<Rightarrow> Inr (0, s\<lparr>pool := None, destroyer := Released\<rparr>)))"

text \<open>The copy loop of \<open>thread_pool_get_running_task_names\<close>, its first \<open>i\<close> rounds:
  \<open>Inr None\<close> when a \<open>malloc\<close> failed (the copies made so far are freed).\<close>

primrec copy_names :: "(nat \<Rightarrow> addr) \<Rightarrow> string list \<Rightarrow> nat \<Rightarrow> fault + string list option" where
  "copy_names m names 0 = Inr (Some [])"
| "copy_names m names (Suc i) =
     (case copy_names m names i of
        Inl e \<Rightarrow> Inl e
      | Inr None \<Rightarrow> Inr None
      | Inr (Some copies) \<Rightarrow>
          if m i = NULL then Inr None
          else if \<not> i < length names then Inl InvalidPointer
          else Inr (Some (copies @
                 [(strncpy fresh_buf (names ! i) MAX_TASK_NAME_LEN)
                    [MAX_TASK_NAME_LEN - 1 := NUL]])))"

text \<open>\<open>thread_pool_get_running_task_names(pool)\<close>: \<open>arr\<close> is the result of the \<open>malloc\<close>
  of the array, \<open>m i\<close> of the \<open>malloc\<close> of string \<open>i\<close>; \<open>None\<close> stands for \<open>NULL\<close>.\<close>

definition thread_pool_get_running_task_names ::
  "addr \<Rightarrow> addr \<Rightarrow> (nat \<Rightarrow> addr) \<Rightarrow> sys \<Rightarrow> fault + string list option"
where
  "thread_pool_get_running_task_names h arr m s =
     (if h = NULL then Inr None
      else if h \<noteq> pool_addr s then Inl InvalidPointer
      else
        (case pool s of
           None \<Rightarrow> Inl InvalidPointer
         | Some p \<Rightarrow>
             if arr = NULL then Inr None
             else copy_names m (running_task_names p) (nat (thread_count p))))"

section \<open>Runs of the pool\<close>

text \<open>The threads of a program interleave at the lock: every step is one stretch of
  code under the lock (or one that touches no shared data). \<open>Invoke i\<close> is the call of
  the task's function by worker \<open>i\<close>, \<open>Complete i\<close> its return and what the worker does
  under the lock after it. \<open>Wakeup i\<close> is a wakeup of worker \<open>i\<close> that no signal caused,
  which \<open>pthread_cond_wait\<close> permits. A \<open>malloc\<close> never returns the address of a live
  node.\<close>

datatype event =
    Submit addr addr addr "string option" addr nat
  | Dispatch nat addr
  | Invoke nat
  | Complete nat
  | Wakeup nat
  | DestroySignal addr
  | DestroyJoin
  | DestroyRelease

fun perform :: "event \<Rightarrow> sys \<Rightarrow> fault + sys" where
  "perform (Submit h f a name new_node w) s =
     (if new_node \<noteq> NULL \<and> fmlookup (nodes s) new_node \<noteq> None then Inl Blocked
      else map_sum id snd (thread_pool_add_task h f a name new_node w s))"
| "perform (Dispatch i copy) s = worker_dispatch i copy s"
| "perform (Invoke i) s = worker_invoke i s"
| "perform (Complete i) s = worker_complete i s"
| "perform (Wakeup i) s =
     (if i < length (workers s) \<and> workers s ! i = Waiting
      then Inr (s\<lparr>workers := (workers s)[i := Ready]\<rparr>)
      else Inl Blocked)"
| "perform (DestroySignal h) s = map_sum id snd (thread_pool_destroy_signal h s)"
| "perform DestroyJoin s = thread_pool_destroy_join s"
| "perform DestroyRelease s = map_sum id snd (thread_pool_destroy_release s)"

text \<open>The task a worker holds, and the task it runs, each as a list of at most one
  element.\<close>

fun holding_task :: "wstate \<Rightarrow> task_t list" where
  "holding_task (Holding t) = [t]"
| "holding_task _ = []"

fun running_task :: "wstate \<Rightarrow> task_t list" where
  "running_task (Running t) = [t]"
| "running_task _ = []"

text \<open>What the program sees of a step taken in state \<open>s\<close>: that a submission returned 0
  (read off the value that \<open>thread_pool_add_task\<close> returns), that a worker calls the
  function of the task it holds, that the function a worker runs returns.\<close>

fun observe :: "event \<Rightarrow> sys \<Rightarrow> obs list" where
  "observe (Submit h f a name new_node w) s =
     (if map_sum id fst (thread_pool_add_task h f a name new_node w s) = Inr 0
      then [Accepted f a] else [])"
| "observe (Invoke i) s =
     (if i < length (workers s)
      then map (\<lambda>t. Called (func t) (arg t)) (holding_task (workers s ! i)) else [])"
| "observe (Complete i) s =
     (if i < length (workers s)
      then map (\<lambda>t. Returned (func t) (arg t)) (running_task (workers s ! i)) else [])"
| "observe e s = []"

definition record_obs :: "obs list \<Rightarrow> sys \<Rightarrow> sys" where
  "record_obs os s = s\<lparr>hist := (hist s)\<lparr>log := log (hist s) @ os\<rparr>\<rparr>"

text \<open>A step: what the thread does, and the note of it in the log.\<close>

definition step :: "event \<Rightarrow> sys \<Rightarrow> fault + sys" where
  "step e s = map_sum id (record_obs (observe e s)) (perform e s)"

fun run :: "event list \<Rightarrow> sys \<Rightarrow> fault + sys" where
  "run [] s = Inr s"
| "run (e # es) s = (case step e s of Inl f \<Rightarrow> Inl f | Inr s1 \<Rightarrow> run es s1)"

section \<open>The queue as a list, and the invariant of a pool\<close>

text \<open>\<open>node_path h p as\<close>: following \<open>next\<close> from pointer \<open>p\<close> in heap \<open>h\<close> visits
  exactly the allocated nodes \<open>as\<close> and then reaches \<open>NULL\<close>.\<close>

primrec node_path :: "(addr, task_node_t) fmap \<Rightarrow> addr \<Rightarrow> addr list \<Rightarrow> bool" where
  "node_path h p [] = (p = NULL)"
| "node_path h p (a # as) =
     (p = a \<and> a \<noteq> NULL \<and>
      (case fmlookup h a of None \<Rightarrow> False | Some nd \<Rightarrow> node_path h (nxt nd) as))"

text \<open>The tasks stored in the nodes \<open>as\<close>.\<close>

definition node_tasks :: "(addr, task_node_t) fmap \<Rightarrow> addr list \<Rightarrow> task_t list" where
  "node_tasks h as = map (\<lambda>a. task (the (fmlookup h a))) as"

text \<open>\<open>head\<close>, \<open>tail\<close> and \<open>task_queue_size\<close> describe a linked list of distinct nodes
  that holds the tasks \<open>q\<close>, oldest first.\<close>

definition queue_raw ::
  "(addr, task_node_t) fmap \<Rightarrow> addr \<Rightarrow> addr \<Rightarrow> int \<Rightarrow> task_t list \<Rightarrow> bool" where
  "queue_raw h hd_ptr tl_ptr sz q =
     (\<exists>as. node_path h hd_ptr as \<and> distinct as \<and>
           tl_ptr = (if as = [] then NULL else last as) \<and>
           sz = int (length as) \<and> q = node_tasks h as)"

text \<open>The submissions accepted, the calls made and the calls returned according to a
  log, each as the pair of function pointer and argument, in the order of the log.\<close>

definition call_of :: "task_t \<Rightarrow> addr \<times> addr" where
  "call_of t = (func t, arg t)"

fun accepted :: "obs list \<Rightarrow> (addr \<times> addr) list" where
  "accepted [] = []"
| "accepted (Accepted f a # os) = (f, a) # accepted os"
| "accepted (ob # os) = accepted os"

fun called :: "obs list \<Rightarrow> (addr \<times> addr) list" where
  "called [] = []"
| "called (Called f a # os) = (f, a) # called os"
| "called (ob # os) = called os"

fun returned :: "obs list \<Rightarrow> (addr \<times> addr) list" where
  "returned [] = []"
| "returned (Returned f a # os) = (f, a) # returned os"
| "returned (ob # os) = returned os"

text \<open>The tasks that the workers hold or run, as calls.\<close>

definition held :: "wstate list \<Rightarrow> (addr \<times> addr) list" where
  "held ws = map call_of (concat (map holding_task ws))"

definition in_call :: "wstate list \<Rightarrow> (addr \<times> addr) list" where
  "in_call ws = map call_of (concat (map running_task ws))"


text \<open>What holds in every state that a pool created with handle \<open>a\<close> and \<open>k\<close> workers
  reaches; \<open>q\<close> are the tasks in its queue.\<close>

definition pool_inv :: "addr \<Rightarrow> nat \<Rightarrow> sys \<Rightarrow> task_t list \<Rightarrow> bool" where
  "pool_inv a k s q =
     (a \<noteq> NULL \<and> pool_addr s = a \<and> 0 < k \<and> length (workers s) = k \<and>
      accepted (log (hist s)) = map call_of (enqueued (hist s)) \<and>
      length (enqueued (hist s)) \<le> enqueue_calls (hist s) \<and>
      enqueued (hist s) = dequeued (hist s) @ q @ discarded (hist s) \<and>
      mset (called (log (hist s))) + mset (held (workers s))
        = mset (map call_of (dequeued (hist s))) \<and>
      (k = 1 \<longrightarrow> map call_of (dequeued (hist s))
                   = called (log (hist s)) @ held (workers s)) \<and>
      (k = 1 \<longrightarrow> called (log (hist s)) = returned (log (hist s)) @ in_call (workers s)) \<and>
      (Exited \<in> set (workers s) \<longrightarrow>
         destroyer s \<noteq> NotCalled \<and> (failed_dequeue_exits (hist s) = 0 \<longrightarrow> q = [])) \<and>
      (destroyer s = Drained \<or> destroyer s = Released \<longrightarrow>
         q = [] \<and> list_all (\<lambda>w. w = Exited) (workers s)) \<and>
      (destroyer s = NotCalled \<or> destroyer s = Joining \<longrightarrow> discarded (hist s) = []) \<and>
      (failed_dequeue_exits (hist s) = 0 \<longrightarrow> discarded (hist s) = []) \<and>
      (case pool s of
         None \<Rightarrow> destroyer s = Released
       | Some p \<Rightarrow>
           destroyer s \<noteq> Released \<and>
           queue_raw (nodes s) (head p) (tail p) (task_queue_size p) q \<and>
           thread_count p = int k \<and> length (running_task_names p) = k \<and>
           (shutdown p = 0) = (destroyer s = NotCalled) \<and>
           (dequeued (hist s) = [] \<longrightarrow>
              running_task_names p = replicate k (idle_name fresh_buf))))"

section \<open>Notions used in the statements\<close>

text \<open>The steps that only worker threads take.\<close>

fun worker_event :: "event \<Rightarrow> bool" where
  "worker_event (Dispatch i copy) = True"
| "worker_event (Invoke i) = True"
| "worker_event (Complete i) = True"
| "worker_event (Wakeup i) = True"
| "worker_event _ = False"

text \<open>The head pointer is null exactly when the tail pointer is, and both are null
  exactly when the recorded size is zero.\<close>

definition queue_ptrs_ok :: "thread_pool_s \<Rightarrow> bool" where
  "queue_ptrs_ok p =
     (((head p = NULL) = (tail p = NULL)) \<and>
      ((head p = NULL \<and> tail p = NULL) = (task_queue_size p = 0)))"

definition queue_ok :: "sys \<Rightarrow> bool" where
  "queue_ok s = (case pool s of None \<Rightarrow> False | Some p \<Rightarrow> queue_ptrs_ok p)"

definition shutdown_set :: "sys \<Rightarrow> bool" where
  "shutdown_set s = (case pool s of None \<Rightarrow> False | Some p \<Rightarrow> shutdown p \<noteq> 0)"


definition calls_made :: "sys \<Rightarrow> (addr \<times> addr) list" where
  "calls_made s = called (log (hist s))"


definition names_of :: "task_t list \<Rightarrow> string list" where
  "names_of ts = map (\<lambda>t. cstr (task_name t)) ts"

definition queued_names :: "sys \<Rightarrow> string list" where
  "queued_names s = names_of (queued_tasks s)"

definition discarded_names :: "sys \<Rightarrow> string list" where
  "discarded_names s = names_of (discarded (hist s))"

definition dequeued_calls :: "sys \<Rightarrow> (addr \<times> addr) list" where
  "dequeued_calls s = map call_of (dequeued (hist s))"

definition queue_counts :: "sys \<Rightarrow> int option \<times> nat \<times> nat \<times> nat" where
  "queue_counts s = (map_option task_queue_size (pool s), enqueue_calls (hist s),
     length (enqueued (hist s)), length (dequeued (hist s)))"

text \<open>A concrete pool for the examples: every allocation of \<open>thread_pool_create\<close>
  succeeds, the pool is at address 100 and has one worker. The runs below submit two
  tasks with the function at address 7: T1 with the argument 8, T2 with the argument 9.\<close>

definition all_ok :: create_env where
  "all_ok = \<lparr>pool_mem = 100, mutex_init = 0, cond_init = 0, threads_mem = 101, names_mem = 102,
     name_mem = (\<lambda>i. 200 + i), args_mem = (\<lambda>i. 300 + i), thread_create = (\<lambda>i. 0),
     sees_flag = (\<lambda>i. True)\<rparr>"

definition demo_pool :: sys where
  "demo_pool = snd (the (thread_pool_create 1 all_ok))"

definition submit_T1 :: event where
  "submit_T1 = Submit 100 7 8 (Some ''T1'') 1 0"

definition submit_T2 :: event where
  "submit_T2 = Submit 100 7 9 (Some ''T2'') 2 0"

definition abandon_run :: "event list" where
  "abandon_run = [submit_T1, submit_T2, DestroySignal 100, Dispatch 0 9, Invoke 0,
     Complete 0, Dispatch 0 NULL, DestroyJoin]"

definition abandon_final :: sys where
  "abandon_final = projr (run abandon_run demo_pool)"



text \<open>The same with two workers: both dequeue, then the second calls its task before the
  first does.\<close>

definition two_workers :: sys where
  "two_workers = snd (the (thread_pool_create 2 all_ok))"

definition overtaking_run :: "event list" where
  "overtaking_run = [submit_T1, submit_T2, Dispatch 0 9, Dispatch 1 10, Invoke 1, Invoke 0]"

definition flag_run :: "event list" where
  "flag_run = [submit_T1, submit_T2, Dispatch 0 9, Invoke 0, DestroySignal 100]"



definition closing_pool :: sys where
  "closing_pool = projr (run [DestroySignal 100] demo_pool)"

definition one_queued :: sys where
  "one_queued = projr (run [submit_T1] demo_pool)"

definition destroyed_pool :: sys where
  "destroyed_pool = projr (run [DestroySignal 100, Dispatch 0 9, DestroyJoin, DestroyRelease] demo_pool)"

definition two_queued :: sys where
  "two_queued = projr (run [submit_T1, submit_T2] demo_pool)"

definition idle_final :: sys where
  "idle_final = projr (run [Dispatch 0 9, Wakeup 0, Dispatch 0 9] demo_pool)"

definition long_name :: string where
  "long_name = replicate 70 (CHR ''a'')"

text \<open>The name, as a C string, of the task in the queue node at an address.\<close>

definition stored_name :: "sys \<Rightarrow> addr \<Rightarrow> string option" where
  "stored_name s a = map_option (\<lambda>nd. cstr (task_name (task nd))) (fmlookup (nodes s) a)"

section \<open>Lemmas: the linked list\<close>

lemma node_path_upd_other:
  "a \<notin> set as \<Longrightarrow> node_path (fmupd a nd h) p as = node_path h p as"
  by (induction as arbitrary: p) (auto split: option.splits)

lemma node_path_drop_other:
  "a \<notin> set as \<Longrightarrow> node_path (fmdrop a h) p as = node_path h p as"
  by (induction as arbitrary: p) (auto split: option.splits)

lemma node_path_allocated:
  "node_path h p as \<Longrightarrow> a \<in> set as \<Longrightarrow> a \<noteq> NULL \<and> fmlookup h a \<noteq> None"
  by (induction as arbitrary: p) (auto split: option.splits)

lemma node_path_null: "node_path h p as \<Longrightarrow> (p = NULL) = (as = [])"
  by (cases as) auto

lemma node_path_snoc:
  "node_path h p (as @ [t]) \<Longrightarrow> fmlookup h t = Some last_node \<Longrightarrow> distinct (as @ [t]) \<Longrightarrow>
   new_node \<notin> set (as @ [t]) \<Longrightarrow> new_node \<noteq> NULL \<Longrightarrow>
   node_path (fmupd new_node \<lparr>task = x, nxt = NULL\<rparr>
               (fmupd t (last_node\<lparr>nxt := new_node\<rparr>) h)) p (as @ [t, new_node])"
proof (induction as arbitrary: p)
  case Nil
  then show ?case by (auto split: option.splits)
next
  case (Cons a as)
  then show ?case by (auto split: option.splits)
qed

lemma node_tasks_upd_other:
  "a \<notin> set as \<Longrightarrow> node_tasks (fmupd a nd h) as = node_tasks h as"
  by (auto simp: node_tasks_def)

lemma node_tasks_drop_other:
  "a \<notin> set as \<Longrightarrow> node_tasks (fmdrop a h) as = node_tasks h as"
  by (auto simp: node_tasks_def)

lemma node_tasks_snoc:
  "fmlookup h t = Some last_node \<Longrightarrow> distinct (as @ [t]) \<Longrightarrow> new_node \<notin> set (as @ [t]) \<Longrightarrow>
   node_tasks (fmupd new_node \<lparr>task = x, nxt = NULL\<rparr>
                 (fmupd t (last_node\<lparr>nxt := new_node\<rparr>) h)) (as @ [t, new_node])
     = node_tasks h (as @ [t]) @ [x]"
  by (auto simp: node_tasks_def)

lemma queue_raw_empty: "queue_raw h NULL NULL 0 []"
  by (auto simp: queue_raw_def node_tasks_def intro!: exI [of _ "[]"])

lemma queue_raw_size: "queue_raw h hp tp sz q \<Longrightarrow> sz = int (length q)"
  by (auto simp: queue_raw_def node_tasks_def)

lemma queue_raw_head_null: "queue_raw h hp tp sz q \<Longrightarrow> (hp = NULL) = (q = [])"
  by (auto simp: queue_raw_def node_tasks_def dest: node_path_null)

lemma queue_raw_tail_null: "queue_raw h hp tp sz q \<Longrightarrow> (tp = NULL) = (q = [])"
proof -
  assume q: "queue_raw h hp tp sz q"
  then obtain as where as: "node_path h hp as" "tp = (if as = [] then NULL else last as)"
    "q = node_tasks h as"
    by (auto simp: queue_raw_def)
  have "as \<noteq> [] \<Longrightarrow> last as \<noteq> NULL"
    using node_path_allocated [OF as(1), of "last as"] by simp
  then show ?thesis using as(2,3) by (auto simp: node_tasks_def)
qed

lemma queue_raw_enqueue_first:
  assumes "queue_raw h hp NULL sz q" "new_node \<noteq> NULL" "fmlookup h new_node = None"
  shows "queue_raw (fmupd new_node \<lparr>task = x, nxt = NULL\<rparr> h) new_node new_node (sz + 1) (q @ [x])"
proof -
  have "q = []" using queue_raw_tail_null [OF assms(1)] by simp
  then have "sz = 0" using queue_raw_size [OF assms(1)] by simp
  show ?thesis
    unfolding queue_raw_def using \<open>q = []\<close> \<open>sz = 0\<close> assms(2)
    by (intro exI [of _ "[new_node]"]) (simp add: node_tasks_def)
qed

lemma queue_raw_enqueue_next:
  assumes "queue_raw h hp tp sz q" "tp \<noteq> NULL" "fmlookup h tp = Some last_node"
    "new_node \<noteq> NULL" "fmlookup h new_node = None"
  shows "queue_raw (fmupd new_node \<lparr>task = x, nxt = NULL\<rparr>
                      (fmupd tp (last_node\<lparr>nxt := new_node\<rparr>) h)) hp new_node (sz + 1) (q @ [x])"
proof -
  from assms(1) obtain as where as: "node_path h hp as" "distinct as"
    "tp = (if as = [] then NULL else last as)" "sz = int (length as)" "q = node_tasks h as"
    by (auto simp: queue_raw_def)
  from as(3) assms(2) have "as \<noteq> []" by auto
  then obtain bs where bs: "as = bs @ [tp]"
    using as(3) by (metis append_butlast_last_id)
  have fresh: "new_node \<notin> set as"
    using node_path_allocated [OF as(1)] assms(5) by blast
  have "node_path (fmupd new_node \<lparr>task = x, nxt = NULL\<rparr>
                      (fmupd tp (last_node\<lparr>nxt := new_node\<rparr>) h)) hp (bs @ [tp, new_node])"
    using as(1,2) assms(3,4) fresh unfolding bs by (intro node_path_snoc) simp_all
  moreover have "distinct (bs @ [tp, new_node])"
    using as(2) fresh unfolding bs by auto
  moreover have "node_tasks (fmupd new_node \<lparr>task = x, nxt = NULL\<rparr>
                 (fmupd tp (last_node\<lparr>nxt := new_node\<rparr>) h)) (bs @ [tp, new_node]) = q @ [x]"
    using as(2,5) assms(3) fresh unfolding bs by (simp add: node_tasks_snoc)
  ultimately show ?thesis
    unfolding queue_raw_def using as(4) bs
    by (intro exI [of _ "bs @ [tp, new_node]"]) simp
qed

lemma queue_raw_tail_allocated:
  "queue_raw h hp tp sz q \<Longrightarrow> tp \<noteq> NULL \<Longrightarrow> fmlookup h tp \<noteq> None"
proof -
  assume q: "queue_raw h hp tp sz q" and t: "tp \<noteq> NULL"
  from q obtain as where as: "node_path h hp as" "tp = (if as = [] then NULL else last as)"
    by (auto simp: queue_raw_def)
  from as(2) t have "as \<noteq> []" "tp = last as" by (auto split: if_splits)
  then have "tp \<in> set as" by simp
  then show ?thesis using node_path_allocated [OF as(1)] by blast
qed

lemma queue_raw_dequeue:
  assumes "queue_raw h hp tp sz q" "hp \<noteq> NULL"
  shows "\<exists>nd q'. fmlookup h hp = Some nd \<and> q = task nd # q' \<and>
           queue_raw (fmdrop hp h) (nxt nd) (if nxt nd = NULL then NULL else tp) (sz - 1) q'"
proof -
  from assms(1) obtain as where as: "node_path h hp as" "distinct as"
    "tp = (if as = [] then NULL else last as)" "sz = int (length as)" "q = node_tasks h as"
    by (auto simp: queue_raw_def)
  from as(1) assms(2) obtain bs where bs: "as = hp # bs"
    by (cases as) auto
  from as(1) bs obtain nd where nd: "fmlookup h hp = Some nd" "node_path h (nxt nd) bs"
    by (auto split: option.splits)
  have notin: "hp \<notin> set bs" using as(2) bs by simp
  have p: "node_path (fmdrop hp h) (nxt nd) bs"
    using nd(2) notin by (simp add: node_path_drop_other)
  have nn: "(nxt nd = NULL) = (bs = [])" using nd(2) by (rule node_path_null)
  have "queue_raw (fmdrop hp h) (nxt nd) (if nxt nd = NULL then NULL else tp) (sz - 1)
     (node_tasks h bs)"
    unfolding queue_raw_def using p as(2,3,4) bs nn notin
    by (intro exI [of _ bs]) (auto simp: node_tasks_drop_other)
  moreover have "q = task nd # node_tasks h bs"
    using as(5) bs nd(1) by (simp add: node_tasks_def)
  ultimately show ?thesis using nd(1) by blast
qed

lemma free_nodes_path:
  "node_path h p as \<Longrightarrow> distinct as \<Longrightarrow>
   free_nodes h p freed = Inr (fmdrop_set (set as) h, freed @ node_tasks h as)"
proof (induction as arbitrary: h p freed)
  case Nil
  then show ?case by (simp add: free_nodes.simps node_tasks_def)
next
  case (Cons a as)
  then obtain nd where nd: "fmlookup h a = Some nd" "node_path h (nxt nd) as" "p = a" "a \<noteq> NULL"
    by (auto split: option.splits)
  have "a \<notin> set as" using Cons.prems(2) by simp
  then have "node_path (fmdrop a h) (nxt nd) as"
    using nd(2) by (simp add: node_path_drop_other)
  then have "free_nodes (fmdrop a h) (nxt nd) (freed @ [task nd])
      = Inr (fmdrop_set (set as) (fmdrop a h), (freed @ [task nd]) @ node_tasks (fmdrop a h) as)"
    using Cons.prems(2) by (intro Cons.IH) simp_all
  then show ?case
    using nd \<open>a \<notin> set as\<close>
    by (subst free_nodes.simps) (simp add: node_tasks_drop_other, simp add: node_tasks_def)
qed

lemma walk_path: "node_path h p as \<Longrightarrow> walk (length as) h p = node_tasks h as"
  by (induction as arbitrary: p) (auto simp: node_tasks_def split: option.splits)

lemma queue_raw_walk: "queue_raw h hp tp sz q \<Longrightarrow> walk (nat sz) h hp = q"
  by (auto simp: queue_raw_def walk_path)

section \<open>Lemmas: the queue operations on a well-formed queue\<close>

lemma enqueue_spec:
  assumes "pool s = Some p"
    and "queue_raw (nodes s) (head p) (tail p) (task_queue_size p) q"
    and "new_node \<noteq> NULL" and "fmlookup (nodes s) new_node = None"
    and "task_enqueue_internal t new_node s = Inr (r, s')"
  shows "r = 0 \<and> (\<exists>hp ns.
           s' = s\<lparr>pool := Some (p\<lparr>head := hp, tail := new_node,
                                   task_queue_size := task_queue_size p + 1\<rparr>),
                  nodes := ns\<rparr> \<and>
           queue_raw ns hp new_node (task_queue_size p + 1) (q @ [t]))"
proof (cases "tail p = NULL")
  case True
  have "queue_raw (fmupd new_node \<lparr>task = t, nxt = NULL\<rparr> (nodes s)) new_node new_node
          (task_queue_size p + 1) (q @ [t])"
    using assms(2,3,4) True by (intro queue_raw_enqueue_first) simp_all
  then show ?thesis
    using assms(1,3,5) True
    by (auto simp: task_enqueue_internal_def Let_def split: if_splits)
next
  case False
  then obtain last_node where l: "fmlookup (nodes s) (tail p) = Some last_node"
    using queue_raw_tail_allocated [OF assms(2)] by auto
  have "queue_raw (fmupd new_node \<lparr>task = t, nxt = NULL\<rparr>
                      (fmupd (tail p) (last_node\<lparr>nxt := new_node\<rparr>) (nodes s)))
          (head p) new_node (task_queue_size p + 1) (q @ [t])"
    using assms(2,3,4) False l by (intro queue_raw_enqueue_next) simp_all
  then show ?thesis
    using assms(1,3,5) False l
    by (auto simp: task_enqueue_internal_def Let_def split: if_splits
        intro!: exI [of _ "head p"])
qed

lemma dequeue_spec:
  assumes "pool s = Some p"
    and "queue_raw (nodes s) (head p) (tail p) (task_queue_size p) q"
    and "task_dequeue_internal copy s = Inr (r, s')"
  shows "(r = None \<and> s' = s \<and> (q = [] \<or> copy = NULL)) \<or>
         (\<exists>t q' hp tp ns. q = t # q' \<and> copy \<noteq> NULL \<and> r = Some t \<and>
            s' = s\<lparr>pool := Some (p\<lparr>head := hp, tail := tp,
                                    task_queue_size := task_queue_size p - 1\<rparr>),
                   nodes := ns\<rparr> \<and>
            queue_raw ns hp tp (task_queue_size p - 1) q')"
proof (cases "head p = NULL \<or> copy = NULL")
  case True
  then show ?thesis
    using assms queue_raw_head_null [OF assms(2)]
    by (auto simp: task_dequeue_internal_def)
next
  case False
  then obtain nd q' where nd: "fmlookup (nodes s) (head p) = Some nd" "q = task nd # q'"
    "queue_raw (fmdrop (head p) (nodes s)) (nxt nd) (if nxt nd = NULL then NULL else tail p)
       (task_queue_size p - 1) q'"
    using queue_raw_dequeue [OF assms(2)] by blast
  show ?thesis
    using assms(1,3) False nd
    by (intro disjI2 exI [of _ "task nd"] exI [of _ q'] exI [of _ "nxt nd"]
          exI [of _ "if nxt nd = NULL then NULL else tail p"]
          exI [of _ "fmdrop (head p) (nodes s)"])
       (auto simp: task_dequeue_internal_def Let_def split: if_splits)
qed

lemma drain_spec:
  assumes "pool s = Some p"
    and "queue_raw (nodes s) (head p) (tail p) (task_queue_size p) q"
  shows "\<exists>ns. task_queue_destroy_internal s =
           Inr (s\<lparr>pool := Some (p\<lparr>head := NULL, tail := NULL, task_queue_size := 0\<rparr>),
                  nodes := ns\<rparr>)"
proof -
  from assms(2) obtain as where as: "node_path (nodes s) (head p) as" "distinct as"
    "q = node_tasks (nodes s) as"
    by (auto simp: queue_raw_def)
  show ?thesis
    using assms(1) free_nodes_path [OF as(1,2), of "[]"] as(3)
    by (intro exI [of _ "fmdrop_set (set as) (nodes s)"])
       (simp add: task_queue_destroy_internal_def)
qed

section \<open>Lemmas: workers, creation, submission\<close>

lemma exited_update:
  "i < length ws \<Longrightarrow> ws ! i \<noteq> Exited \<Longrightarrow>
   (Exited \<in> set (ws[i := x])) = (x = Exited \<or> Exited \<in> set ws)"
  by (auto simp: in_set_conv_nth nth_list_update split: if_splits)

lemma concat_update_same:
  "i < length ws \<Longrightarrow> f x = f (ws ! i) \<Longrightarrow> concat (map f (ws[i := x])) = concat (map f ws)"
proof -
  assume a: "i < length ws" "f x = f (ws ! i)"
  have "(map f ws)[i := f (ws ! i)] = map f ws"
    using a(1) by (metis list_update_id map_update)
  then show ?thesis using a by (simp add: map_update)
qed

lemma concat_single:
  "length ws = Suc 0 \<Longrightarrow> i < length ws \<Longrightarrow>
   concat (map f (ws[i := x])) = f x \<and> concat (map f ws) = f (ws ! i)"
  by (cases ws) auto

lemma concat_update_mset:
  "i < length ws \<Longrightarrow>
   mset (concat (map f (ws[i := x]))) + mset (f (ws ! i)) = mset (concat (map f ws)) + mset (f x)"
  by (induction ws arbitrary: i) (auto split: nat.splits)

lemma held_update_same:
  "i < length ws \<Longrightarrow> holding_task x = holding_task (ws ! i) \<Longrightarrow> held (ws[i := x]) = held ws"
  by (simp add: held_def concat_update_same)

lemma in_call_update_same:
  "i < length ws \<Longrightarrow> running_task x = running_task (ws ! i) \<Longrightarrow>
   in_call (ws[i := x]) = in_call ws"
  by (simp add: in_call_def concat_update_same)

lemma held_single:
  "length ws = Suc 0 \<Longrightarrow> i < length ws \<Longrightarrow>
   held (ws[i := x]) = map call_of (holding_task x) \<and>
   held ws = map call_of (holding_task (ws ! i))"
  using concat_single [of ws i holding_task x] by (simp add: held_def)

lemma in_call_single:
  "length ws = Suc 0 \<Longrightarrow> i < length ws \<Longrightarrow>
   in_call (ws[i := x]) = map call_of (running_task x) \<and>
   in_call ws = map call_of (running_task (ws ! i))"
  using concat_single [of ws i running_task x] by (simp add: in_call_def)

lemma held_update_mset:
  assumes "i < length ws"
  shows "mset (held (ws[i := x])) + mset (map call_of (holding_task (ws ! i)))
           = mset (held ws) + mset (map call_of (holding_task x))"
proof -
  have "image_mset call_of
          (mset (concat (map holding_task (ws[i := x]))) + mset (holding_task (ws ! i)))
        = image_mset call_of (mset (concat (map holding_task ws)) + mset (holding_task x))"
    using concat_update_mset [OF assms, of holding_task x] by simp
  then show ?thesis
    by (simp add: held_def)
qed

lemma cond_signal_length [simp]: "length (cond_signal w ws) = length ws"
  by (simp add: cond_signal_def)

lemma cond_signal_exited [simp]: "(Exited \<in> set (cond_signal w ws)) = (Exited \<in> set ws)"
  by (simp add: cond_signal_def exited_update)

lemma cond_signal_held [simp]: "held (cond_signal w ws) = held ws"
  by (simp add: cond_signal_def held_update_same)

lemma cond_signal_in_call [simp]: "in_call (cond_signal w ws) = in_call ws"
  by (simp add: cond_signal_def in_call_update_same)

lemma cond_broadcast_length [simp]: "length (cond_broadcast ws) = length ws"
  by (simp add: cond_broadcast_def)

lemma cond_broadcast_exited [simp]: "(Exited \<in> set (cond_broadcast ws)) = (Exited \<in> set ws)"
  by (auto simp: cond_broadcast_def)

lemma cond_broadcast_held [simp]: "held (cond_broadcast ws) = held ws"
proof -
  have "holding_task (if x = Waiting then Ready else x) = holding_task x" for x
    by (cases x) auto
  then show ?thesis by (simp add: cond_broadcast_def held_def comp_def)
qed

lemma cond_broadcast_in_call [simp]: "in_call (cond_broadcast ws) = in_call ws"
proof -
  have "running_task (if x = Waiting then Ready else x) = running_task x" for x
    by (cases x) auto
  then show ?thesis by (simp add: cond_broadcast_def in_call_def comp_def)
qed

lemma accepted_append [simp]: "accepted (xs @ ys) = accepted xs @ accepted ys"
  by (induction xs rule: accepted.induct) auto

lemma called_append [simp]: "called (xs @ ys) = called xs @ called ys"
  by (induction xs rule: called.induct) auto

lemma returned_append [simp]: "returned (xs @ ys) = returned xs @ returned ys"
  by (induction xs rule: returned.induct) auto

lemma record_obs_nil [simp]: "record_obs [] s = s"
  by (simp add: record_obs_def)

lemma init_names_idle:
  "init_names m n = Some names \<Longrightarrow> names = replicate n (idle_name fresh_buf)"
  by (induction n arbitrary: names)
     (auto split: option.splits if_splits simp: replicate_append_same)

lemma spawn_workers_ready:
  "spawn_workers e n = Inr ws \<Longrightarrow> ws = replicate n Ready"
  by (induction n arbitrary: ws)
     (auto split: sum.splits if_splits simp: replicate_append_same)

lemma create_result:
  assumes "thread_pool_create num_threads e = Some (h, s)" "h \<noteq> NULL"
  shows "0 < num_threads \<and> h = pool_mem e \<and>
         s = \<lparr>pool_addr = h,
              pool = Some \<lparr>thread_count = num_threads, head = NULL, tail = NULL,
                       task_queue_size = 0, shutdown = 0, started = num_threads,
                       running_task_names = replicate (nat num_threads) (idle_name fresh_buf)\<rparr>,
              nodes = fmempty, workers = replicate (nat num_threads) Ready,
              destroyer = NotCalled, hist = no_history\<rparr>"
proof -
  have pos: "0 < num_threads"
    using assms by (cases "num_threads \<le> 0") (simp_all add: thread_pool_create_def)
  obtain names where n: "init_names (name_mem e) (nat num_threads) = Some names"
    using assms pos by (cases "init_names (name_mem e) (nat num_threads)")
      (auto simp: thread_pool_create_def split: if_splits)
  obtain ws where w: "spawn_workers e (nat num_threads) = Inr ws"
    using assms pos n by (cases "spawn_workers e (nat num_threads)")
      (auto simp: thread_pool_create_def split: if_splits)
  have "names = replicate (nat num_threads) (idle_name fresh_buf)"
    using n by (rule init_names_idle)
  moreover have "ws = replicate (nat num_threads) Ready"
    using w by (rule spawn_workers_ready)
  ultimately show ?thesis
    using assms pos n w by (auto simp: thread_pool_create_def split: if_splits)
qed

lemma create_inv:
  assumes "thread_pool_create num_threads e = Some (h, s)" "h \<noteq> NULL"
  shows "pool_inv h (nat num_threads) s []"
proof -
  note r = create_result [OF assms]
  then have "0 < nat num_threads" by simp
  then show ?thesis
    using assms(2) queue_raw_empty [of fmempty]
    by (subst conjunct2 [OF conjunct2 [OF r]])
       (simp add: pool_inv_def no_history_def held_def in_call_def)
qed

lemma enqueue_failed: "task_enqueue_internal t NULL s = Inr (- 1, s)"
  by (simp add: task_enqueue_internal_def)

lemma enqueue_result:
  "task_enqueue_internal t new_node s = Inr (r, s') \<Longrightarrow> new_node \<noteq> NULL \<Longrightarrow> r = 0"
  by (auto simp: task_enqueue_internal_def Let_def split: if_splits option.splits prod.splits)

lemma add_task_cases:
  assumes "thread_pool_add_task h f x name new_node w s = Inr (r, s')"
  shows "(r = - 1 \<and> s' = s \<and>
            (h = NULL \<or> f = NULL \<or> (\<exists>p. pool s = Some p \<and> shutdown p \<noteq> 0))) \<or>
         (r = - 1 \<and> new_node = NULL \<and> h \<noteq> NULL \<and> f \<noteq> NULL \<and>
            (\<exists>p. pool s = Some p \<and> shutdown p = 0) \<and>
            s' = s\<lparr>hist := (hist s)\<lparr>enqueue_calls := Suc (enqueue_calls (hist s))\<rparr>\<rparr>) \<or>
         (r = 0 \<and> new_node \<noteq> NULL \<and> h \<noteq> NULL \<and> f \<noteq> NULL \<and> h = pool_addr s \<and>
            (\<exists>p t s1. pool s = Some p \<and> shutdown p = 0 \<and> func t = f \<and> arg t = x \<and>
               task_name t =
                 (strncpy fresh_buf (case name of Some src \<Rightarrow> src | None \<Rightarrow> ''unnamed_task'')
                    (MAX_TASK_NAME_LEN - 1))[MAX_TASK_NAME_LEN - 1 := NUL] \<and>
               task_enqueue_internal t new_node s = Inr (0, s1) \<and>
               s' = s1\<lparr>hist := (hist s1)\<lparr>enqueue_calls := Suc (enqueue_calls (hist s1)),
                                          enqueued := enqueued (hist s1) @ [t]\<rparr>,
                       workers := cond_signal w (workers s1)\<rparr>))"
proof (cases "h = NULL \<or> f = NULL")
  case True
  then show ?thesis using assms by (auto simp: thread_pool_add_task_def)
next
  case False
  then have hp: "h = pool_addr s"
    using assms by (auto simp: thread_pool_add_task_def split: if_splits)
  then obtain p where p: "pool s = Some p"
    using assms False by (cases "pool s") (auto simp: thread_pool_add_task_def)
  show ?thesis
  proof (cases "shutdown p \<noteq> 0")
    case True
    then show ?thesis using assms False hp p by (auto simp: thread_pool_add_task_def)
  next
    case sd: False
    define t where "t = \<lparr>func = f, arg = x,
                     task_name =
                       (strncpy fresh_buf (case name of Some src \<Rightarrow> src | None \<Rightarrow> ''unnamed_task'')
                          (MAX_TASK_NAME_LEN - 1))[MAX_TASK_NAME_LEN - 1 := NUL]\<rparr>"
    have eq: "thread_pool_add_task h f x name new_node w s =
        (case task_enqueue_internal t new_node s of
           Inl e \<Rightarrow> Inl e
         | Inr (r, s1) \<Rightarrow>
             if r \<noteq> 0
             then Inr (- 1, s1\<lparr>hist := (hist s1)
                                  \<lparr>enqueue_calls := Suc (enqueue_calls (hist s1))\<rparr>\<rparr>)
             else Inr (0, s1\<lparr>hist := (hist s1)
                                \<lparr>enqueue_calls := Suc (enqueue_calls (hist s1)),
                                 enqueued := enqueued (hist s1) @ [t]\<rparr>,
                             workers := cond_signal w (workers s1)\<rparr>))"
      using False hp p sd
      by (cases name)
         (auto simp: thread_pool_add_task_def t_def Let_def split: sum.splits prod.splits)
    show ?thesis
    proof (cases "new_node = NULL")
      case True
      then show ?thesis
        using assms False hp p sd unfolding eq by (simp add: enqueue_failed)
    next
      case nn: False
      then obtain r1 s1 where e: "task_enqueue_internal t new_node s = Inr (r1, s1)"
        using assms unfolding eq by (cases "task_enqueue_internal t new_node s") auto
      then have "r1 = 0" using nn by (rule enqueue_result)
      then have r: "r = 0"
          "s' = s1\<lparr>hist := (hist s1)\<lparr>enqueue_calls := Suc (enqueue_calls (hist s1)),
                                     enqueued := enqueued (hist s1) @ [t]\<rparr>,
                  workers := cond_signal w (workers s1)\<rparr>"
        using assms e unfolding eq by simp_all
      have "\<exists>p ta s1a. pool s = Some p \<and> shutdown p = 0 \<and> func ta = f \<and> arg ta = x \<and>
               task_name ta =
                 (strncpy fresh_buf (case name of Some src \<Rightarrow> src | None \<Rightarrow> ''unnamed_task'')
                    (MAX_TASK_NAME_LEN - 1))[MAX_TASK_NAME_LEN - 1 := NUL] \<and>
               task_enqueue_internal ta new_node s = Inr (0, s1a) \<and>
               s' = s1a\<lparr>hist := (hist s1a)\<lparr>enqueue_calls := Suc (enqueue_calls (hist s1a)),
                                           enqueued := enqueued (hist s1a) @ [ta]\<rparr>,
                        workers := cond_signal w (workers s1a)\<rparr>"
        using p sd e \<open>r1 = 0\<close> r(2)
        by (intro exI [of _ p] exI [of _ t] exI [of _ s1]) (simp add: t_def)
      then show ?thesis
        using False hp nn r(1) by blast
    qed
  qed
qed

section \<open>Lemmas: every step keeps the invariant\<close>

lemma pool_inv_enqueue_call:
  "pool_inv a k s q \<Longrightarrow>
   pool_inv a k (s\<lparr>hist := (hist s)\<lparr>enqueue_calls := Suc (enqueue_calls (hist s))\<rparr>\<rparr>) q"
  by (clarsimp simp: pool_inv_def split: option.splits)

lemma add_task_inv:
  assumes "pool_inv a k s q"
    and "new_node \<noteq> NULL \<longrightarrow> fmlookup (nodes s) new_node = None"
    and "thread_pool_add_task h f x name new_node w s = Inr (r, s')"
  shows "\<exists>q'. pool_inv a k (record_obs (if r = 0 then [Accepted f x] else []) s') q'"
proof -
  consider
    (same) "r = - 1" "s' = s"
  | (failed) "r = - 1"
      "s' = s\<lparr>hist := (hist s)\<lparr>enqueue_calls := Suc (enqueue_calls (hist s))\<rparr>\<rparr>"
  | (added) p t s1 where "r = 0" "pool s = Some p" "shutdown p = 0" "new_node \<noteq> NULL"
      "func t = f" "arg t = x"
      "task_enqueue_internal t new_node s = Inr (0, s1)"
      "s' = s1\<lparr>hist := (hist s1)\<lparr>enqueue_calls := Suc (enqueue_calls (hist s1)),
                                 enqueued := enqueued (hist s1) @ [t]\<rparr>,
              workers := cond_signal w (workers s1)\<rparr>"
    using add_task_cases [OF assms(3)] by blast
  then show ?thesis
  proof cases
    case same
    then show ?thesis using assms(1) by auto
  next
    case failed
    then show ?thesis using pool_inv_enqueue_call [OF assms(1)] by auto
  next
    case added
    have qr: "queue_raw (nodes s) (head p) (tail p) (task_queue_size p) q"
      using assms(1) added(2) by (simp add: pool_inv_def)
    have fresh: "fmlookup (nodes s) new_node = None"
      using assms(2) added(4) by simp
    obtain hp ns where s1: "s1 = s\<lparr>pool := Some (p\<lparr>head := hp, tail := new_node,
                                   task_queue_size := task_queue_size p + 1\<rparr>),
                  nodes := ns\<rparr>"
      "queue_raw ns hp new_node (task_queue_size p + 1) (q @ [t])"
      using enqueue_spec [OF added(2) qr added(4) fresh added(7)] by blast
    have nc: "destroyer s = NotCalled"
      using assms(1) added(2,3) by (simp add: pool_inv_def)
    have c: "call_of t = (f, x)"
      using added(5,6) by (simp add: call_of_def)
    have "pool_inv a k (record_obs [Accepted f x] s') (q @ [t])"
      using assms(1) added(2,3) s1(2) nc c unfolding added(8) s1(1)
      by (clarsimp simp: pool_inv_def record_obs_def)
    then show ?thesis using added(1) by auto
  qed
qed

lemma worker_dispatch_cases:
  assumes "pool s = Some p"
    and "queue_raw (nodes s) (head p) (tail p) (task_queue_size p) q"
    and "worker_dispatch i copy s = Inr s'"
  shows "i < length (workers s) \<and> workers s ! i = Ready \<and>
    ((q = [] \<and> shutdown p = 0 \<and> s' = s\<lparr>workers := (workers s)[i := Waiting]\<rparr>) \<or>
     (q = [] \<and> shutdown p \<noteq> 0 \<and> s' = s\<lparr>workers := (workers s)[i := Exited]\<rparr>) \<or>
     (q \<noteq> [] \<and> copy = NULL \<and> shutdown p \<noteq> 0 \<and>
        s' = s\<lparr>workers := (workers s)[i := Exited],
               hist := (hist s)\<lparr>failed_dequeue_exits := Suc (failed_dequeue_exits (hist s))\<rparr>\<rparr>) \<or>
     (q \<noteq> [] \<and> copy = NULL \<and> shutdown p = 0 \<and> s' = s) \<or>
     (\<exists>t q' hp tp ns. q = t # q' \<and> copy \<noteq> NULL \<and> i < length (running_task_names p) \<and>
        s' = s\<lparr>pool := Some (p\<lparr>head := hp, tail := tp,
                                task_queue_size := task_queue_size p - 1,
                                running_task_names := (running_task_names p)[i :=
                                  snprintf_s (running_task_names p ! i) MAX_TASK_NAME_LEN
                                    (task_name t)]\<rparr>),
               nodes := ns,
               workers := (workers s)[i := Holding t],
               hist := (hist s)\<lparr>dequeued := dequeued (hist s) @ [t]\<rparr>\<rparr> \<and>
        queue_raw ns hp tp (task_queue_size p - 1) q'))"
proof -
  have en: "i < length (workers s)" "workers s ! i = Ready"
    using assms(3) by (auto simp: worker_dispatch_def split: if_splits)
  have sz: "(task_queue_size p = 0) = (q = [])"
    using queue_raw_size [OF assms(2)] by simp
  show ?thesis
  proof (cases "q = []")
    case True
    then have z: "task_queue_size p = 0" using sz by simp
    show ?thesis
    proof (cases "shutdown p = 0")
      case True
      then show ?thesis
        using assms(1,3) en z \<open>q = []\<close> by (simp add: worker_dispatch_def)
    next
      case False
      then show ?thesis
        using assms(1,3) en z \<open>q = []\<close> by (simp add: worker_dispatch_def)
    qed
  next
    case False
    then have nz: "task_queue_size p \<noteq> 0" using sz by simp
    obtain r s1 where d: "task_dequeue_internal copy s = Inr (r, s1)"
      using assms(1,3) en nz
      by (cases "task_dequeue_internal copy s") (auto simp: worker_dispatch_def)
    have w: "worker_dispatch i copy s =
        (case (r, s1) of
           (Some current_task_data, s1) \<Rightarrow>
                    (case pool s1 of
                       None \<Rightarrow> Inl InvalidPointer
                     | Some p1 \<Rightarrow>
                         if \<not> i < length (running_task_names p1) then Inl InvalidPointer
                         else Inr (s1\<lparr>pool := Some (p1\<lparr>running_task_names :=
                                        (running_task_names p1)[i :=
                                           snprintf_s (running_task_names p1 ! i)
                                             MAX_TASK_NAME_LEN (task_name current_task_data)]\<rparr>),
                                      workers := (workers s1)[i := Holding current_task_data],
                                      hist := (hist s1)\<lparr>dequeued :=
                                                dequeued (hist s1) @ [current_task_data]\<rparr>\<rparr>))
         | (None, s1) \<Rightarrow>
                    if shutdown p \<noteq> 0
                    then Inr (s1\<lparr>workers := (workers s1)[i := Exited],
                                 hist := (hist s1)\<lparr>failed_dequeue_exits :=
                                           Suc (failed_dequeue_exits (hist s1))\<rparr>\<rparr>)
                    else Inr s1)"
      using assms(1) en nz d by (simp add: worker_dispatch_def)
    from dequeue_spec [OF assms(1,2) d] consider
      (none) "r = None" "s1 = s" "copy = NULL"
    | (some) t q' hp tp ns where "q = t # q'" "copy \<noteq> NULL" "r = Some t"
        "s1 = s\<lparr>pool := Some (p\<lparr>head := hp, tail := tp,
                                    task_queue_size := task_queue_size p - 1\<rparr>),
                   nodes := ns\<rparr>"
        "queue_raw ns hp tp (task_queue_size p - 1) q'"
      using False by blast
    then show ?thesis
    proof cases
      case none
      then show ?thesis
        using assms(3) en False unfolding w by (auto split: if_splits)
    next
      case a: some
      have il: "i < length (running_task_names p)"
        using assms(3) unfolding w a(3,4) by (auto split: if_splits)
      have "s' = s\<lparr>pool := Some (p\<lparr>head := hp, tail := tp,
                                task_queue_size := task_queue_size p - 1,
                                running_task_names := (running_task_names p)[i :=
                                  snprintf_s (running_task_names p ! i) MAX_TASK_NAME_LEN
                                    (task_name t)]\<rparr>),
               nodes := ns,
               workers := (workers s)[i := Holding t],
               hist := (hist s)\<lparr>dequeued := dequeued (hist s) @ [t]\<rparr>\<rparr>"
        using assms(3) il unfolding w a(3,4) by auto
      then show ?thesis
        using en a(1,2,5) il by blast
    qed
  qed
qed

lemma not_all_exited:
  "i < length ws \<Longrightarrow> ws ! i \<noteq> Exited \<Longrightarrow> \<not> list_all (\<lambda>w. w = Exited) ws"
  by (auto simp: list_all_length)

lemma pool_inv_active:
  assumes "pool_inv a k s q" "i < length (workers s)" "workers s ! i \<noteq> Exited"
  shows "destroyer s = NotCalled \<or> destroyer s = Joining"
  using assms not_all_exited [OF assms(2,3)]
  by (cases "destroyer s") (auto simp: pool_inv_def)

lemma pool_inv_live:
  assumes "pool_inv a k s q" "destroyer s \<noteq> Released"
  shows "\<exists>p. pool s = Some p \<and> queue_raw (nodes s) (head p) (tail p) (task_queue_size p) q"
  using assms by (cases "pool s") (auto simp: pool_inv_def)

lemma dispatch_inv:
  assumes "pool_inv a k s q" and "worker_dispatch i copy s = Inr s'"
  shows "\<exists>q'. pool_inv a k s' q'"
proof -
  have en: "i < length (workers s)" "workers s ! i = Ready"
    using assms(2) by (auto simp: worker_dispatch_def split: if_splits)
  then have act: "destroyer s = NotCalled \<or> destroyer s = Joining"
    using pool_inv_active [OF assms(1)] by simp
  then obtain p where p: "pool s = Some p"
      "queue_raw (nodes s) (head p) (tail p) (task_queue_size p) q"
    using pool_inv_live [OF assms(1)] by auto
  have ic: "in_call ((workers s)[i := x]) = in_call (workers s)" if "running_task x = []" for x
    using en that by (simp add: in_call_update_same)
  have hs: "held ((workers s)[i := x]) = held (workers s)" if "holding_task x = []" for x
    using en that by (simp add: held_update_same)
  have hm: "mset (held ((workers s)[i := Holding t]))
      = add_mset (call_of t) (mset (held (workers s)))" for t
    using held_update_mset [OF en(1), of "Holding t"] en(2) by simp
  have h1: "k = Suc 0 \<Longrightarrow> held (workers s) = [] \<and>
      held ((workers s)[i := Holding t]) = [call_of t]" for t
    using held_single [of "workers s" i "Holding t"] en assms(1) by (simp add: pool_inv_def)
  have sd: "(shutdown p = 0) = (destroyer s = NotCalled)"
    using assms(1) p(1) by (simp add: pool_inv_def)
  from worker_dispatch_cases [OF p assms(2)] consider
      (wait) "q = []" "shutdown p = 0" "s' = s\<lparr>workers := (workers s)[i := Waiting]\<rparr>"
    | (exit) "q = []" "shutdown p \<noteq> 0" "s' = s\<lparr>workers := (workers s)[i := Exited]\<rparr>"
    | (fail_exit) "q \<noteq> []" "copy = NULL" "shutdown p \<noteq> 0"
        "s' = s\<lparr>workers := (workers s)[i := Exited],
               hist := (hist s)\<lparr>failed_dequeue_exits := Suc (failed_dequeue_exits (hist s))\<rparr>\<rparr>"
    | (retry) "s' = s"
    | (run) t q' hp tp ns where "q = t # q'" "copy \<noteq> NULL" "i < length (running_task_names p)"
        "s' = s\<lparr>pool := Some (p\<lparr>head := hp, tail := tp,
                                task_queue_size := task_queue_size p - 1,
                                running_task_names := (running_task_names p)[i :=
                                  snprintf_s (running_task_names p ! i) MAX_TASK_NAME_LEN
                                    (task_name t)]\<rparr>),
               nodes := ns,
               workers := (workers s)[i := Holding t],
               hist := (hist s)\<lparr>dequeued := dequeued (hist s) @ [t]\<rparr>\<rparr>"
        "queue_raw ns hp tp (task_queue_size p - 1) q'"
    by blast
  then show ?thesis
  proof cases
    case wait
    have "pool_inv a k s' q"
      using assms(1) en p(1) act sd wait(2) unfolding wait(3)
      by (clarsimp simp: pool_inv_def exited_update ic hs)
    then show ?thesis ..
  next
    case exit
    have "pool_inv a k s' q"
      using assms(1) en p(1) act sd exit(1,2) unfolding exit(3)
      by (clarsimp simp: pool_inv_def exited_update ic hs)
    then show ?thesis ..
  next
    case fail_exit
    have "pool_inv a k s' q"
      using assms(1) en p(1) act sd fail_exit(3) unfolding fail_exit(4)
      by (clarsimp simp: pool_inv_def exited_update ic hs)
    then show ?thesis ..
  next
    case retry
    then show ?thesis using assms(1) by blast
  next
    case run
    have "pool_inv a k s' q'"
      using assms(1) en p(1) act sd run(1,3,5) h1 [of t] unfolding run(4)
      by (clarsimp simp: pool_inv_def exited_update ic hm)
    then show ?thesis ..
  qed
qed

lemma name_buf_any:
  assumes "length dst = MAX_TASK_NAME_LEN"
  shows "(strncpy dst src (MAX_TASK_NAME_LEN - 1))[MAX_TASK_NAME_LEN - 1 := NUL] =
         take (MAX_TASK_NAME_LEN - 1) (cstr src @ replicate (MAX_TASK_NAME_LEN - 1) NUL) @ [NUL]"
proof -
  have "length (drop (MAX_TASK_NAME_LEN - 1) dst) = Suc 0"
    using assms by (simp add: MAX_TASK_NAME_LEN_def)
  then obtain c where c: "drop (MAX_TASK_NAME_LEN - 1) dst = [c]"
    by (auto simp: length_Suc_conv simp del: length_drop)
  define xs where "xs = take (MAX_TASK_NAME_LEN - 1) (cstr src @ replicate (MAX_TASK_NAME_LEN - 1) NUL)"
  have "length xs = MAX_TASK_NAME_LEN - 1"
    by (simp add: xs_def)
  then have "(xs @ [c])[MAX_TASK_NAME_LEN - 1 := NUL] = xs @ [NUL]"
    by (simp add: list_update_append)
  then show ?thesis
    unfolding strncpy_def c xs_def .
qed

lemma name_buf_length:
  "length dst = MAX_TASK_NAME_LEN \<Longrightarrow>
   length ((strncpy dst src (MAX_TASK_NAME_LEN - 1))[MAX_TASK_NAME_LEN - 1 := NUL])
     = MAX_TASK_NAME_LEN"
  by (simp only: name_buf_any) (simp add: MAX_TASK_NAME_LEN_def)

lemma idle_name_any: "length buf = MAX_TASK_NAME_LEN \<Longrightarrow> idle_name buf = idle_name fresh_buf"
  by (simp only: idle_name_def name_buf_any fresh_buf_def length_replicate)

lemma idle_name_idem: "idle_name (idle_name fresh_buf) = idle_name fresh_buf"
  by (rule idle_name_any) (simp only: idle_name_def name_buf_length fresh_buf_def length_replicate)

lemma invoke_inv:
  assumes "pool_inv a k s q" and "worker_invoke i s = Inr s'"
  shows "pool_inv a k (record_obs (observe (Invoke i) s) s') q"
proof -
  obtain t where en: "i < length (workers s)" "workers s ! i = Holding t"
    using assms(2) by (cases "workers s ! i") (auto simp: worker_invoke_def split: if_splits)
  then have act: "destroyer s = NotCalled \<or> destroyer s = Joining"
    using pool_inv_active [OF assms(1)] by simp
  have s': "s' = s\<lparr>workers := (workers s)[i := Running t]\<rparr>"
    using assms(2) en by (simp add: worker_invoke_def)
  have ob: "observe (Invoke i) s = [Called (func t) (arg t)]"
    using en by simp
  have hm: "add_mset (call_of t) (mset (held ((workers s)[i := Running t])))
      = mset (held (workers s))"
    using held_update_mset [OF en(1), of "Running t"] en(2) by simp
  have h1: "k = Suc 0 \<Longrightarrow> held (workers s) = [call_of t] \<and>
      held ((workers s)[i := Running t]) = []"
    using held_single [of "workers s" i "Running t"] en assms(1) by (simp add: pool_inv_def)
  have r1: "k = Suc 0 \<Longrightarrow> in_call (workers s) = [] \<and>
      in_call ((workers s)[i := Running t]) = [call_of t]"
    using in_call_single [of "workers s" i "Running t"] en assms(1) by (simp add: pool_inv_def)
  have c: "(func t, arg t) = call_of t"
    by (simp add: call_of_def)
  show ?thesis
    using act
  proof
    assume "destroyer s = NotCalled"
    then show ?thesis
      using assms(1) en h1 r1 hm [symmetric] unfolding s' ob
      by (clarsimp simp: pool_inv_def exited_update record_obs_def c split: option.splits)
  next
    assume "destroyer s = Joining"
    then show ?thesis
      using assms(1) en h1 r1 hm [symmetric] unfolding s' ob
      by (clarsimp simp: pool_inv_def exited_update record_obs_def c split: option.splits)
  qed
qed

lemma complete_inv:
  assumes "pool_inv a k s q" and "worker_complete i s = Inr s'"
  shows "pool_inv a k (record_obs (observe (Complete i) s) s') q"
proof -
  obtain t where en: "i < length (workers s)" "workers s ! i = Running t"
    using assms(2) by (cases "workers s ! i") (auto simp: worker_complete_def split: if_splits)
  then have act: "destroyer s = NotCalled \<or> destroyer s = Joining"
    using pool_inv_active [OF assms(1)] by simp
  then obtain p where p: "pool s = Some p"
    using pool_inv_live [OF assms(1)] by auto
  have il: "i < length (running_task_names p)"
    using assms(1) en(1) p by (simp add: pool_inv_def)
  have s': "s' = s\<lparr>pool := Some (p\<lparr>running_task_names :=
                                 (running_task_names p)[i :=
                                    idle_name (running_task_names p ! i)]\<rparr>),
                   workers := (workers s)[i := Ready]\<rparr>"
    using assms(2) en p il by (simp add: worker_complete_def)
  have ob: "observe (Complete i) s = [Returned (func t) (arg t)]"
    using en by simp
  have c: "(func t, arg t) = call_of t"
    by (simp add: call_of_def)
  have hs: "held ((workers s)[i := Ready]) = held (workers s)"
    using en by (simp add: held_update_same)
  have r1: "k = Suc 0 \<Longrightarrow> in_call (workers s) = [call_of t] \<and>
      in_call ((workers s)[i := Ready]) = []"
    using in_call_single [of "workers s" i Ready] en assms(1) by (simp add: pool_inv_def)
  have nm: "running_task_names p = replicate k (idle_name fresh_buf) \<Longrightarrow>
      (running_task_names p)[i := idle_name (running_task_names p ! i)]
        = replicate k (idle_name fresh_buf)"
    using il by (simp add: idle_name_idem list_update_same_conv)
  show ?thesis
    using act
  proof
    assume "destroyer s = NotCalled"
    then show ?thesis
      using assms(1) en p r1 nm unfolding s' ob
      by (clarsimp simp: pool_inv_def exited_update record_obs_def c hs)
  next
    assume "destroyer s = Joining"
    then show ?thesis
      using assms(1) en p r1 nm unfolding s' ob
      by (clarsimp simp: pool_inv_def exited_update record_obs_def c hs)
  qed
qed

lemma wakeup_inv:
  assumes "pool_inv a k s q" and "perform (Wakeup i) s = Inr s'"
  shows "pool_inv a k s' q"
proof -
  have en: "i < length (workers s)" "workers s ! i = Waiting"
      "s' = s\<lparr>workers := (workers s)[i := Ready]\<rparr>"
    using assms(2) by (auto split: if_splits)
  then have act: "destroyer s = NotCalled \<or> destroyer s = Joining"
    using pool_inv_active [OF assms(1)] by simp
  have k1: "in_call ((workers s)[i := Ready]) = in_call (workers s)"
      "held ((workers s)[i := Ready]) = held (workers s)"
    using en(1,2) by (simp_all add: in_call_update_same held_update_same)
  show ?thesis
    using act
  proof
    assume "destroyer s = NotCalled"
    then show ?thesis
      using assms(1) en(1,2) k1 unfolding en(3)
      by (clarsimp simp: pool_inv_def exited_update split: option.splits)
  next
    assume "destroyer s = Joining"
    then show ?thesis
      using assms(1) en(1,2) k1 unfolding en(3)
      by (clarsimp simp: pool_inv_def exited_update split: option.splits)
  qed
qed

lemma destroy_signal_cases:
  assumes "thread_pool_destroy_signal h s = Inr (r, s')"
  shows "(h = NULL \<and> r = Some (- 1) \<and> s' = s) \<or>
         (h \<noteq> NULL \<and> h = pool_addr s \<and> r = Some 0 \<and> s' = s \<and>
            (\<exists>p. pool s = Some p \<and> shutdown p \<noteq> 0)) \<or>
         (h \<noteq> NULL \<and> h = pool_addr s \<and> r = None \<and>
            (\<exists>p. pool s = Some p \<and> shutdown p = 0 \<and>
               s' = s\<lparr>pool := Some (p\<lparr>shutdown := 1\<rparr>),
                      workers := cond_broadcast (workers s),
                      destroyer := Joining\<rparr>))"
  using assms
  by (cases "pool s") (auto simp: thread_pool_destroy_signal_def split: if_splits)

lemma destroy_signal_inv:
  assumes "pool_inv a k s q" and "thread_pool_destroy_signal h s = Inr (r, s')"
  shows "pool_inv a k s' q"
proof -
  from destroy_signal_cases [OF assms(2)] consider
      (same) "s' = s"
    | (signal) p where "pool s = Some p" "shutdown p = 0"
        "s' = s\<lparr>pool := Some (p\<lparr>shutdown := 1\<rparr>),
               workers := cond_broadcast (workers s), destroyer := Joining\<rparr>"
    by blast
  then show ?thesis
  proof cases
    case same
    then show ?thesis using assms(1) by simp
  next
    case signal
    have "destroyer s = NotCalled"
      using assms(1) signal(1,2) by (simp add: pool_inv_def)
    then show ?thesis
      using assms(1) signal(1,2) unfolding signal(3)
      by (clarsimp simp: pool_inv_def)
  qed
qed

lemma destroy_join_inv:
  assumes "pool_inv a k s q" and "thread_pool_destroy_join s = Inr s'"
  shows "pool_inv a k s' []"
proof -
  have en: "destroyer s = Joining" "list_all (\<lambda>w. w = Exited) (workers s)"
    using assms(2) by (auto simp: thread_pool_destroy_join_def split: if_splits)
  then obtain p where p: "pool s = Some p"
      "queue_raw (nodes s) (head p) (tail p) (task_queue_size p) q"
    using pool_inv_live [OF assms(1)] by auto
  obtain ns where d: "task_queue_destroy_internal s =
           Inr (s\<lparr>pool := Some (p\<lparr>head := NULL, tail := NULL, task_queue_size := 0\<rparr>),
                  nodes := ns\<rparr>)"
    using drain_spec [OF p] by blast
  have qt: "queued_tasks s = q"
    using p queue_raw_walk [OF p(2)] by (simp add: queued_tasks_def)
  have s': "s' = s\<lparr>pool := Some (p\<lparr>head := NULL, tail := NULL, task_queue_size := 0\<rparr>),
                  nodes := ns,
                  hist := (hist s)\<lparr>discarded := discarded (hist s) @ q\<rparr>,
                  destroyer := Drained\<rparr>"
    using assms(2) en d qt by (auto simp: thread_pool_destroy_join_def)
  have "workers s \<noteq> []"
    using assms(1) by (auto simp: pool_inv_def)
  then have ex: "Exited \<in> set (workers s)"
    using en(2) by (cases "workers s") auto
  show ?thesis
    using assms(1) en p(1) ex queue_raw_empty [of ns] unfolding s'
    by (clarsimp simp: pool_inv_def)
qed

lemma destroy_release_inv:
  assumes "pool_inv a k s q" and "thread_pool_destroy_release s = Inr (r, s')"
  shows "pool_inv a k s' q"
proof -
  have en: "destroyer s = Drained"
    using assms(2) by (auto simp: thread_pool_destroy_release_def split: if_splits)
  then have "s' = s\<lparr>pool := None, destroyer := Released\<rparr>"
    using assms(2) by (auto simp: thread_pool_destroy_release_def split: option.splits)
  then show ?thesis
    using assms(1) en by (clarsimp simp: pool_inv_def)
qed

lemma step_cases:
  "step e s = Inr s' \<Longrightarrow> \<exists>s1. perform e s = Inr s1 \<and> s' = record_obs (observe e s) s1"
  unfolding step_def by (cases "perform e s") auto

lemma step_inv:
  assumes "pool_inv a k s q" and "step e s = Inr s'"
  shows "\<exists>q'. pool_inv a k s' q'"
proof -
  obtain s1 where s1: "perform e s = Inr s1" "s' = record_obs (observe e s) s1"
    using step_cases [OF assms(2)] by blast
  show ?thesis
  proof (cases e)
    case (Submit h f x name new_node w)
    then obtain r where r: "thread_pool_add_task h f x name new_node w s = Inr (r, s1)"
        "new_node \<noteq> NULL \<longrightarrow> fmlookup (nodes s) new_node = None"
      using s1(1)
      by (cases "thread_pool_add_task h f x name new_node w s") (auto split: if_splits)
    have "observe e s = (if r = 0 then [Accepted f x] else [])"
      using Submit r(1) by simp
    then show ?thesis
      using add_task_inv [OF assms(1) r(2,1)] s1(2) by simp
  next
    case (Dispatch i copy)
    then show ?thesis using assms(1) s1 dispatch_inv by simp
  next
    case (Invoke i)
    then have "pool_inv a k s' q" using assms(1) s1 invoke_inv by simp
    then show ?thesis ..
  next
    case (Complete i)
    then have "pool_inv a k s' q" using assms(1) s1 complete_inv by simp
    then show ?thesis ..
  next
    case (Wakeup i)
    then have "pool_inv a k s' q" using assms(1) s1 wakeup_inv [of a k s q i s1] by simp
    then show ?thesis ..
  next
    case (DestroySignal h)
    then obtain r where "thread_pool_destroy_signal h s = Inr (r, s1)"
      using s1(1) by (cases "thread_pool_destroy_signal h s") auto
    then show ?thesis using destroy_signal_inv [OF assms(1)] s1(2) DestroySignal by auto
  next
    case DestroyJoin
    then have "pool_inv a k s' []" using assms(1) s1 destroy_join_inv by simp
    then show ?thesis ..
  next
    case DestroyRelease
    then obtain r where "thread_pool_destroy_release s = Inr (r, s1)"
      using s1(1) by (cases "thread_pool_destroy_release s") auto
    then show ?thesis using destroy_release_inv [OF assms(1)] s1(2) DestroyRelease by auto
  qed
qed

lemma run_inv:
  "pool_inv a k s q \<Longrightarrow> run es s = Inr s' \<Longrightarrow> \<exists>q'. pool_inv a k s' q'"
proof (induction es arbitrary: s q)
  case Nil
  then show ?case by auto
next
  case (Cons e es)
  then obtain s1 where s1: "step e s = Inr s1" "run es s1 = Inr s'"
    by (cases "step e s") auto
  then obtain q1 where "pool_inv a k s1 q1"
    using step_inv [OF Cons.prems(1)] by blast
  then show ?case using Cons.IH s1(2) by blast
qed

lemma reachable_inv:
  assumes "thread_pool_create num_threads e = Some (h, s0)" "h \<noteq> NULL" "run es s0 = Inr s"
  shows "\<exists>q. pool_inv h (nat num_threads) s q"
  using run_inv [OF create_inv [OF assms(1,2)] assms(3)] .

section \<open>Lemmas: what worker steps leave alone, and names\<close>

lemma dequeue_frame:
  "task_dequeue_internal c s = Inr (r, s1) \<Longrightarrow>
   destroyer s1 = destroyer s \<and> hist s1 = hist s \<and> workers s1 = workers s"
  by (auto simp: task_dequeue_internal_def Let_def split: option.splits if_splits)

lemma dispatch_frame:
  assumes "worker_dispatch i c s = Inr s'"
  shows "destroyer s' = destroyer s \<and> enqueued (hist s') = enqueued (hist s)"
proof (cases "task_dequeue_internal c s")
  case (Inl a)
  then show ?thesis
    using assms by (auto simp: worker_dispatch_def split: if_splits option.splits)
next
  case (Inr b)
  obtain r s1 where b: "b = (r, s1)" by (cases b)
  note f = dequeue_frame [OF Inr [unfolded b]]
  show ?thesis
    using assms f unfolding worker_dispatch_def Inr b
    by (auto split: if_splits option.splits)
qed

lemma worker_event_frame:
  assumes "worker_event e" "step e s = Inr s'"
  shows "destroyer s' = destroyer s \<and> enqueued (hist s') = enqueued (hist s)"
proof -
  obtain s1 where s1: "perform e s = Inr s1" "s' = record_obs (observe e s) s1"
    using step_cases [OF assms(2)] by blast
  have "destroyer s1 = destroyer s \<and> enqueued (hist s1) = enqueued (hist s)"
  proof (cases e)
    case (Dispatch i c)
    then show ?thesis using s1(1) dispatch_frame by simp
  next
    case (Invoke i)
    then show ?thesis
      using s1(1) by (auto simp: worker_invoke_def split: if_splits wstate.splits)
  next
    case (Complete i)
    then show ?thesis
      using s1(1)
      by (auto simp: worker_complete_def split: if_splits wstate.splits option.splits)
  next
    case (Wakeup i)
    then show ?thesis using s1(1) by (auto split: if_splits)
  qed (use assms(1) in simp_all)
  then show ?thesis
    unfolding s1(2) by (simp add: record_obs_def)
qed

lemma worker_run_frame:
  "list_all worker_event es \<Longrightarrow> run es s = Inr s' \<Longrightarrow>
   destroyer s' = destroyer s \<and> enqueued (hist s') = enqueued (hist s)"
proof (induction es arbitrary: s)
  case Nil
  then show ?case by simp
next
  case (Cons e es)
  then obtain s1 where s1: "step e s = Inr s1" "run es s1 = Inr s'"
    by (cases "step e s") auto
  then show ?case
    using Cons.IH [OF _ s1(2)] Cons.prems(1) worker_event_frame [OF _ s1(1)] by simp
qed

lemma copy_names_idle:
  assumes "\<forall>i<n. m i \<noteq> NULL" "n \<le> k"
  shows "copy_names m (replicate k b) n =
           Inr (Some (replicate n ((strncpy fresh_buf b MAX_TASK_NAME_LEN)
                                     [MAX_TASK_NAME_LEN - 1 := NUL])))"
  using assms by (induction n) (simp_all add: replicate_append_same)

lemma idle_copy:
  "cstr ((strncpy fresh_buf (idle_name fresh_buf) MAX_TASK_NAME_LEN)
           [MAX_TASK_NAME_LEN - 1 := NUL]) = ''[idle]''"
  by code_simp

lemma cstr_no_nul: "NUL \<notin> set (cstr src)"
  unfolding cstr_def by (induction src) auto

lemma cstr_padded:
  "cstr (take n (cstr src @ replicate n NUL) @ [NUL]) = take n (cstr src)"
proof -
  have t: "take n (cstr src @ replicate n NUL)
      = take n (cstr src) @ replicate (min n (n - length (cstr src))) NUL"
    by simp
  have "NUL \<notin> set (take n (cstr src))"
    using cstr_no_nul [of src] by (auto dest: in_set_takeD)
  then have "takeWhile (\<lambda>c. c \<noteq> NUL) (take n (cstr src) @ (replicate (min n (n - length (cstr src))) NUL @ [NUL]))
      = take n (cstr src)"
    by (subst takeWhile_append2) (auto simp: takeWhile_replicate takeWhile_append)
  then show ?thesis
    unfolding t by (simp add: cstr_def)
qed

lemma queue_raw_ptrs_ok:
  assumes "queue_raw ns (head p) (tail p) (task_queue_size p) q"
  shows "queue_ptrs_ok p"
  using queue_raw_head_null [OF assms] queue_raw_tail_null [OF assms] queue_raw_size [OF assms]
  by (auto simp: queue_ptrs_ok_def)



lemma enqueue_node:
  "task_enqueue_internal t new_node s = Inr (0, s1) \<Longrightarrow>
   fmlookup (nodes s1) new_node = Some \<lparr>task = t, nxt = NULL\<rparr>"
  by (auto simp: task_enqueue_internal_def Let_def split: if_splits option.splits)

lemma default_name: "take (MAX_TASK_NAME_LEN - 1) (cstr ''unnamed_task'') = ''unnamed_task''"
  by code_simp

section \<open>The claims\<close>

lemma demo_created: "thread_pool_create 1 all_ok = Some (100, demo_pool)"
  by code_simp

lemma calls_out_of_dequeue_order:
  "map_sum id dequeued_calls (run overtaking_run two_workers) = Inr [(7, 8), (7, 9)] \<and>
   map_sum id calls_made (run overtaking_run two_workers) = Inr [(7, 9), (7, 8)]"
  by code_simp

lemma pool_inv_history:
  assumes "pool_inv a k s q"
  shows "accepted (log (hist s)) = map call_of (enqueued (hist s))"
    and "enqueued (hist s) = dequeued (hist s) @ q @ discarded (hist s)"
    and "mset (called (log (hist s))) + mset (held (workers s))
           = mset (map call_of (dequeued (hist s)))"
    and "k = 1 \<Longrightarrow> map call_of (dequeued (hist s)) = called (log (hist s)) @ held (workers s)"
    and "k = 1 \<Longrightarrow> called (log (hist s)) = returned (log (hist s)) @ in_call (workers s)"
    and "destroyer s = Drained \<or> destroyer s = Released \<Longrightarrow>
           q = [] \<and> list_all (\<lambda>w. w = Exited) (workers s)"
    and "failed_dequeue_exits (hist s) = 0 \<Longrightarrow> discarded (hist s) = []"
    and "destroyer s = NotCalled \<or> destroyer s = Joining \<Longrightarrow> discarded (hist s) = []"
    and "length (enqueued (hist s)) \<le> enqueue_calls (hist s)"
    and "length (workers s) = k"
  using assms unfolding pool_inv_def by blast+


text \<open>
  Claim C1 at the input where the code departs from it. A pool with one worker; T1 and
  T2 are submitted; the worker dequeues T1 and calls its function; then
  \<open>thread_pool_destroy\<close> sets the shutdown flag. At that moment T2 is in the queue,
  submitted and not dequeued by any worker, and the only call made is that of T1. When
  T1 returns, the worker takes the lock and finds the flag set and the queue not empty:
  it does not exit, it dequeues T2 and calls its function. It exits on its next pass,
  the joins return, and the drain of \<open>thread_pool_destroy\<close> finds nothing to discard.
  The claim, and the comment of \<open>thread_pool_destroy\<close> (the tasks remaining in the
  queue are discarded), say that T2 is never called.
\<close>

theorem queued_task_invoked_after_shutdown_flag:
  "map_sum id shutdown_set (run flag_run demo_pool) = Inr True \<and>
   map_sum id queued_names (run flag_run demo_pool) = Inr [''T2''] \<and>
   map_sum id calls_made (run flag_run demo_pool) = Inr [(7, 8)] \<and>
   map_sum id calls_made (run (flag_run @ [Complete 0, Dispatch 0 9, Invoke 0]) demo_pool)
     = Inr [(7, 8), (7, 9)] \<and>
   map_sum id discarded_names
     (run (flag_run @ [Complete 0, Dispatch 0 9, Invoke 0, Complete 0, Dispatch 0 9,
                       DestroyJoin]) demo_pool) = Inr []"
  by code_simp






text \<open>
  Claim C4. Whenever \<open>thread_pool_add_task\<close> returns, it returns \<open>-1\<close> or \<open>0\<close>, and it
  returns \<open>-1\<close> exactly when the handle is null, the function pointer is null, the
  shutdown flag is set or the allocation of the queue node failed. When it returns
  \<open>-1\<close>, the pool object, the queue nodes, the workers and the list of enqueued tasks
  are as before.
\<close>

theorem add_task_failure_iff:
  assumes "thread_pool_add_task h f x name new_node w s = Inr (r, s')"
  shows "(r = - 1 \<or> r = 0) \<and>
         (r = - 1) = (h = NULL \<or> f = NULL \<or> shutdown_set s \<or> new_node = NULL) \<and>
         (r = - 1 \<longrightarrow> pool s' = pool s \<and> nodes s' = nodes s \<and> workers s' = workers s \<and>
                      enqueued (hist s') = enqueued (hist s))"
  using add_task_cases [OF assms]
  by (elim disjE conjE exE) (simp_all add: shutdown_set_def)

theorem add_task_failure_iff_witness:
  "thread_pool_add_task 100 7 8 (Some ''T1'') 1 0 closing_pool = Inr (- 1, closing_pool) \<and>
   shutdown_set closing_pool \<and>
   map_sum id fst (thread_pool_add_task 100 7 8 (Some ''T1'') 1 0 demo_pool) = Inr 0 \<and>
   \<not> shutdown_set demo_pool"
proof -
  have a: "thread_pool_add_task 100 7 8 (Some ''T1'') 1 0 closing_pool = Inr (- 1, closing_pool)"
    by code_simp
  have b: "thread_pool_add_task 100 7 8 (Some ''T1'') 1 0 demo_pool
      = Inr (0, snd (projr (thread_pool_add_task 100 7 8 (Some ''T1'') 1 0 demo_pool)))"
    by code_simp
  have "shutdown_set closing_pool"
    using add_task_failure_iff [OF a] by simp
  moreover have "\<not> shutdown_set demo_pool"
    using add_task_failure_iff [OF b] by simp
  moreover have "map_sum id fst (thread_pool_add_task 100 7 8 (Some ''T1'') 1 0 demo_pool) = Inr 0"
    by (subst b) simp
  ultimately show ?thesis
    using a by blast
qed

text \<open>
  Claim C5 at the input where the code departs from it. A pool with one worker is
  destroyed: the first call of \<open>thread_pool_destroy\<close> sets the flag, the worker exits,
  the joins return, and the call frees the pool and returns 0. A second call with the
  same handle reads the \<open>shutdown\<close> field and the lock of the freed pool object: its
  behaviour is undefined, it does not return 0 as a no-op.
\<close>

theorem second_destroy_reads_freed_pool:
  "run [DestroySignal 100, Dispatch 0 9, DestroyJoin, DestroyRelease] demo_pool
     = Inr destroyed_pool \<and>
   map_sum id fst (thread_pool_destroy_release
     (projr (run [DestroySignal 100, Dispatch 0 9, DestroyJoin] demo_pool))) = Inr 0 \<and>
   pool destroyed_pool = None \<and>
   thread_pool_destroy_signal 100 destroyed_pool = Inl InvalidPointer"
  by code_simp

text \<open>
  Claim C6. When the node cannot be allocated, \<open>task_enqueue_internal\<close> returns \<open>-1\<close>
  and the state is the one before. When the copy cannot be allocated,
  \<open>task_dequeue_internal\<close> returns \<open>NULL\<close> and the state is the one before, with the head
  node in place: a retry returns what a successful call would have returned in the
  first place. On an empty queue it returns \<open>NULL\<close> and the state is the one before.
\<close>

theorem queue_unchanged_on_allocation_failure:
  assumes "pool s = Some p"
  shows "task_enqueue_internal t NULL s = Inr (- 1, s) \<and>
         task_dequeue_internal NULL s = Inr (None, s) \<and>
         (head p = NULL \<longrightarrow> task_dequeue_internal copy s = Inr (None, s)) \<and>
         (task_dequeue_internal copy s = Inr (Some t_head, s_after) \<longrightarrow>
            task_dequeue_internal copy (snd (projr (task_dequeue_internal NULL s)))
              = Inr (Some t_head, s_after))"
proof -
  have f: "task_dequeue_internal NULL s = Inr (None, s)"
    using assms by (simp add: task_dequeue_internal_def)
  have e: "head p = NULL \<longrightarrow> task_dequeue_internal copy s = Inr (None, s)"
    using assms by (simp add: task_dequeue_internal_def)
  show ?thesis
    using f e by (simp add: enqueue_failed)
qed

theorem queue_unchanged_on_allocation_failure_witness:
  "pool one_queued = Some (the (pool one_queued)) \<and>
   head (the (pool one_queued)) = 1 \<and>
   task_dequeue_internal NULL one_queued = Inr (None, one_queued) \<and>
   task_enqueue_internal \<lparr>func = 7, arg = 8, task_name = fresh_buf\<rparr> NULL one_queued
     = Inr (- 1, one_queued) \<and>
   map_sum id fst
     (task_dequeue_internal 9 (snd (projr (task_dequeue_internal NULL one_queued))))
     = Inr (Some (hd (enqueued (hist one_queued)))) \<and>
   head (the (pool demo_pool)) = NULL \<and>
   task_dequeue_internal 9 demo_pool = Inr (None, demo_pool)"
proof -
  have p: "pool one_queued = Some (the (pool one_queued))"
    by code_simp
  have h: "head (the (pool one_queued)) = 1"
    by code_simp
  have d: "task_dequeue_internal 9 one_queued
      = Inr (Some (hd (enqueued (hist one_queued))), snd (projr (task_dequeue_internal 9 one_queued)))"
    by code_simp
  have p0: "pool demo_pool = Some (the (pool demo_pool))"
    by code_simp
  have h0: "head (the (pool demo_pool)) = NULL"
    by code_simp
  note a = queue_unchanged_on_allocation_failure [OF p,
        where t = "\<lparr>func = 7, arg = 8, task_name = fresh_buf\<rparr>" and copy = 9
          and t_head = "hd (enqueued (hist one_queued))"
          and s_after = "snd (projr (task_dequeue_internal 9 one_queued))"]
  have retry: "task_dequeue_internal 9 (snd (projr (task_dequeue_internal NULL one_queued)))
      = Inr (Some (hd (enqueued (hist one_queued))), snd (projr (task_dequeue_internal 9 one_queued)))"
    using a d by blast
  have "map_sum id fst
     (task_dequeue_internal 9 (snd (projr (task_dequeue_internal NULL one_queued))))
     = Inr (Some (hd (enqueued (hist one_queued))))"
    unfolding retry by simp
  moreover have "task_dequeue_internal NULL one_queued = Inr (None, one_queued)"
    using a by blast
  moreover have "task_enqueue_internal \<lparr>func = 7, arg = 8, task_name = fresh_buf\<rparr> NULL one_queued
     = Inr (- 1, one_queued)"
    using a by blast
  moreover have "task_dequeue_internal 9 demo_pool = Inr (None, demo_pool)"
    using queue_unchanged_on_allocation_failure [OF p0, where copy = 9] h0 by blast
  ultimately show ?thesis
    using p h h0 by blast
qed

text \<open>
  Claim C10. In every state a pool reaches, the head pointer is null exactly when the
  tail pointer is, and both are null exactly when the recorded size is zero; and from
  such a state each queue operation (the enqueue with what a \<open>malloc\<close> can return, the
  dequeue, the drain) leads to a state where this holds again.
\<close>

theorem queue_pointers_invariant:
  assumes "thread_pool_create num_threads e = Some (h, s0)" and "h \<noteq> NULL"
    and "run evs s0 = Inr s" and "pool s = Some p"
  shows "queue_ptrs_ok p \<and>
         (new_node = NULL \<or> fmlookup (nodes s) new_node = None \<longrightarrow>
            task_enqueue_internal t new_node s = Inr (r_enq, s_enq) \<longrightarrow> queue_ok s_enq) \<and>
         (task_dequeue_internal copy s = Inr (r_deq, s_deq) \<longrightarrow> queue_ok s_deq) \<and>
         (task_queue_destroy_internal s = Inr s_drain \<longrightarrow> queue_ok s_drain)"
proof -
  obtain q where "pool_inv h (nat num_threads) s q"
    using reachable_inv [OF assms(1,2,3)] by blast
  then have qr: "queue_raw (nodes s) (head p) (tail p) (task_queue_size p) q"
    using assms(4) by (simp add: pool_inv_def)
  then have 0: "queue_ptrs_ok p"
    by (rule queue_raw_ptrs_ok)
  have 1: "queue_ok s_enq"
    if "new_node = NULL \<or> fmlookup (nodes s) new_node = None"
      and "task_enqueue_internal t new_node s = Inr (r_enq, s_enq)"
  proof (cases "new_node = NULL")
    case True
    then show ?thesis
      using that(2) assms(4) 0 by (auto simp: enqueue_failed queue_ok_def)
  next
    case False
    then have "fmlookup (nodes s) new_node = None"
      using that(1) by simp
    from enqueue_spec [OF assms(4) qr False this that(2)] obtain hp
      where "pool s_enq = Some (p\<lparr>head := hp, tail := new_node,
                                task_queue_size := task_queue_size p + 1\<rparr>)"
        "queue_raw (nodes s_enq) hp new_node (task_queue_size p + 1) (q @ [t])"
      by auto
    then show ?thesis
      using queue_raw_ptrs_ok [of "nodes s_enq" "p\<lparr>head := hp, tail := new_node,
                                task_queue_size := task_queue_size p + 1\<rparr>" "q @ [t]"]
      by (simp add: queue_ok_def)
  qed
  have 2: "queue_ok s_deq" if "task_dequeue_internal copy s = Inr (r_deq, s_deq)"
  proof -
    from dequeue_spec [OF assms(4) qr that] consider "s_deq = s"
      | q' hp tp where "pool s_deq = Some (p\<lparr>head := hp, tail := tp,
                                    task_queue_size := task_queue_size p - 1\<rparr>)"
          "queue_raw (nodes s_deq) hp tp (task_queue_size p - 1) q'"
      by auto
    then show ?thesis
    proof cases
      case 1
      then show ?thesis using assms(4) 0 by (simp add: queue_ok_def)
    next
      case 2
      then show ?thesis
        using queue_raw_ptrs_ok [of "nodes s_deq" "p\<lparr>head := hp, tail := tp,
                                    task_queue_size := task_queue_size p - 1\<rparr>" q']
        by (simp add: queue_ok_def)
    qed
  qed
  have 3: "queue_ok s_drain" if "task_queue_destroy_internal s = Inr s_drain"
    using drain_spec [OF assms(4) qr] that
    by (auto simp: queue_ok_def queue_ptrs_ok_def)
  show ?thesis
    using 0 1 2 3 by blast
qed

theorem queue_pointers_invariant_witness:
  "thread_pool_create 1 all_ok = Some (100, demo_pool) \<and>
   run [submit_T1, submit_T2] demo_pool = Inr two_queued \<and>
   pool two_queued = Some (the (pool two_queued)) \<and>
   queue_counts two_queued = (Some 2, 2, 2, 0) \<and>
   queue_ptrs_ok (the (pool two_queued)) \<and>
   map_sum id fst (task_dequeue_internal 9 two_queued) = Inr (Some (hd (enqueued (hist two_queued)))) \<and>
   queue_ok (snd (projr (task_dequeue_internal 9 two_queued)))"
proof -
  have r: "run [submit_T1, submit_T2] demo_pool = Inr two_queued"
    by code_simp
  have p: "pool two_queued = Some (the (pool two_queued))"
    by code_simp
  have c: "queue_counts two_queued = (Some 2, 2, 2, 0)"
    by code_simp
  have d: "task_dequeue_internal 9 two_queued
      = Inr (Some (hd (enqueued (hist two_queued))), snd (projr (task_dequeue_internal 9 two_queued)))"
    by code_simp
  have f: "map_sum id fst (task_dequeue_internal 9 two_queued)
      = Inr (Some (hd (enqueued (hist two_queued))))"
    by code_simp
  have "queue_ptrs_ok (the (pool two_queued)) \<and>
      queue_ok (snd (projr (task_dequeue_internal 9 two_queued)))"
    using queue_pointers_invariant [OF demo_created _ r p,
        where copy = 9 and r_deq = "Some (hd (enqueued (hist two_queued)))"
          and s_deq = "snd (projr (task_dequeue_internal 9 two_queued))"] d
    by simp
  then show ?thesis
    using demo_created r p c f by blast
qed

text \<open>
  Claim C7, as the code has it. In every state a pool reaches before the drain of
  \<open>thread_pool_destroy\<close>, the recorded queue size is the number of calls of
  \<open>task_enqueue_internal\<close> that returned 0 minus the number of calls of
  \<open>task_dequeue_internal\<close> that returned a task. The drain sets the recorded size to
  zero without dequeuing: after it, that difference is the number of tasks the drain
  found in the queue and discarded. The calls of the enqueue that returned 0 are as
  many as the submissions that returned 0, and at most as many as the calls of the
  enqueue.
\<close>

theorem queue_size_counts:
  assumes "thread_pool_create num_threads e = Some (h, s0)" and "h \<noteq> NULL"
    and "run evs s0 = Inr s" and "pool s = Some p"
  shows "(destroyer s \<noteq> Drained \<longrightarrow>
            task_queue_size p
              = int (length (enqueued (hist s))) - int (length (dequeued (hist s)))) \<and>
         (destroyer s = Drained \<longrightarrow>
            task_queue_size p = 0 \<and>
            int (length (enqueued (hist s))) - int (length (dequeued (hist s)))
              = int (length (discarded (hist s)))) \<and>
         length (enqueued (hist s)) = length (accepted (log (hist s))) \<and>
         length (enqueued (hist s)) \<le> enqueue_calls (hist s)"
proof -
  obtain q where q: "pool_inv h (nat num_threads) s q"
    using reachable_inv [OF assms(1,2,3)] by blast
  then have qr: "queue_raw (nodes s) (head p) (tail p) (task_queue_size p) q"
      and nr: "destroyer s \<noteq> Released"
    using assms(4) by (simp_all add: pool_inv_def)
  note sz = queue_raw_size [OF qr]
  note e = pool_inv_history(2) [OF q]
  have a: "length (enqueued (hist s)) = length (accepted (log (hist s)))"
    using pool_inv_history(1) [OF q] by simp
  note c = pool_inv_history(9) [OF q]
  show ?thesis
  proof (cases "destroyer s = Drained")
    case True
    then have "q = []" using pool_inv_history(6) [OF q] by simp
    then show ?thesis using True sz e a c by simp
  next
    case False
    then have "destroyer s = NotCalled \<or> destroyer s = Joining"
      using nr by (cases "destroyer s") auto
    then have "discarded (hist s) = []" by (rule pool_inv_history(8) [OF q])
    then show ?thesis using False sz e a c by simp
  qed
qed

theorem queue_size_counts_witness:
  "thread_pool_create 1 all_ok = Some (100, demo_pool) \<and>
   run [submit_T1, submit_T2] demo_pool = Inr two_queued \<and>
   pool two_queued = Some (the (pool two_queued)) \<and>
   destroyer two_queued = NotCalled \<and>
   queue_counts two_queued = (Some 2, 2, 2, 0) \<and>
   task_queue_size (the (pool two_queued))
     = int (length (enqueued (hist two_queued))) - int (length (dequeued (hist two_queued))) \<and>
   run abandon_run demo_pool = Inr abandon_final \<and>
   pool abandon_final = Some (the (pool abandon_final)) \<and>
   destroyer abandon_final = Drained \<and>
   queue_counts abandon_final = (Some 0, 2, 2, 1) \<and>
   discarded_names abandon_final = [''T2''] \<and>
   int (length (enqueued (hist abandon_final))) - int (length (dequeued (hist abandon_final)))
     = int (length (discarded (hist abandon_final)))"
proof -
  have r: "run [submit_T1, submit_T2] demo_pool = Inr two_queued"
    by code_simp
  have p: "pool two_queued = Some (the (pool two_queued))"
    by code_simp
  have d: "destroyer two_queued = NotCalled"
    by code_simp
  have c: "queue_counts two_queued = (Some 2, 2, 2, 0)"
    by code_simp
  have r': "run abandon_run demo_pool = Inr abandon_final"
    by code_simp
  have p': "pool abandon_final = Some (the (pool abandon_final))"
    by code_simp
  have d': "destroyer abandon_final = Drained"
    by code_simp
  have c': "queue_counts abandon_final = (Some 0, 2, 2, 1)"
    "discarded_names abandon_final = [''T2'']"
    by code_simp+
  have "task_queue_size (the (pool two_queued))
     = int (length (enqueued (hist two_queued))) - int (length (dequeued (hist two_queued)))"
    using queue_size_counts [OF demo_created _ r p] d by simp
  moreover have "int (length (enqueued (hist abandon_final)))
        - int (length (dequeued (hist abandon_final)))
     = int (length (discarded (hist abandon_final)))"
    using queue_size_counts [OF demo_created _ r' p'] d' by simp
  ultimately show ?thesis
    using demo_created r p d c r' p' d' c' by blast
qed

text \<open>
  Claim C7 as stated fails twice. An enqueue call whose allocation fails is a call, and
  leaves the size at 0: one call, no dequeue, size 0. And the drain does not keep the
  equation: T1 is enqueued, the flag is set, the worker's dequeue fails to allocate and
  the worker exits, the drain discards T1; the size is 0 after one enqueue call, which
  returned 0, and no dequeue.
\<close>

theorem queue_size_not_enqueue_calls_minus_dequeues:
  "map_sum id queue_counts (run [Submit 100 7 8 (Some ''T1'') NULL 0] demo_pool)
     = Inr (Some 0, 1, 0, 0) \<and>
   map_sum id queue_counts
     (run [submit_T1, DestroySignal 100, Dispatch 0 NULL, DestroyJoin] demo_pool)
     = Inr (Some 0, 1, 1, 0)"
  by code_simp

text \<open>
  Claim C8. After a successful \<open>thread_pool_create(k)\<close>, whatever the workers have done
  meanwhile and with no task submitted, \<open>thread_pool_get_running_task_names\<close> (when its
  allocations succeed) returns \<open>k\<close> strings, each of them \<open>[idle]\<close>.
\<close>

theorem idle_names_after_create:
  assumes "thread_pool_create num_threads e = Some (h, s0)" and "h \<noteq> NULL"
    and "run evs s0 = Inr s" and "list_all worker_event evs"
    and "arr \<noteq> NULL" and "\<forall>i<nat num_threads. m i \<noteq> NULL"
  shows "map_sum id (map_option (map cstr)) (thread_pool_get_running_task_names h arr m s)
           = Inr (Some (replicate (nat num_threads) ''[idle]'')) \<and>
         map_sum id (map_option length) (thread_pool_get_running_task_names h arr m s)
           = Inr (Some (nat num_threads))"
proof -
  obtain q where q: "pool_inv h (nat num_threads) s q"
    using reachable_inv [OF assms(1,2,3)] by blast
  have "destroyer s0 = NotCalled" "enqueued (hist s0) = []"
    using create_result [OF assms(1,2)] by (simp_all add: no_history_def)
  then have f: "destroyer s = NotCalled" "enqueued (hist s) = []"
    using worker_run_frame [OF assms(4,3)] by simp_all
  then have i: "dequeued (hist s) = []"
    using pool_inv_history(2) [OF q] by simp
  obtain p where p: "pool s = Some p"
    using pool_inv_live [OF q] f(1) by auto
  have n: "running_task_names p = replicate (nat num_threads) (idle_name fresh_buf)"
      "thread_count p = int (nat num_threads)" "pool_addr s = h"
    using q p i by (simp_all add: pool_inv_def)
  have "thread_pool_get_running_task_names h arr m s
      = Inr (Some (replicate (nat num_threads)
          ((strncpy fresh_buf (idle_name fresh_buf) MAX_TASK_NAME_LEN)
             [MAX_TASK_NAME_LEN - 1 := NUL])))"
    using assms(2,5) p n copy_names_idle [OF assms(6), of "nat num_threads"]
    by (simp add: thread_pool_get_running_task_names_def)
  then show ?thesis
    using idle_copy by simp
qed

theorem idle_names_after_create_witness:
  "thread_pool_create 1 all_ok = Some (100, demo_pool) \<and>
   run [Dispatch 0 9, Wakeup 0, Dispatch 0 9] demo_pool = Inr idle_final \<and>
   workers idle_final = [Waiting] \<and>
   map_sum id (map_option (map cstr))
     (thread_pool_get_running_task_names 100 5 (name_mem all_ok) idle_final)
     = Inr (Some [''[idle]''])"
proof -
  have r: "run [Dispatch 0 9, Wakeup 0, Dispatch 0 9] demo_pool = Inr idle_final"
    by code_simp
  have w: "workers idle_final = [Waiting]"
    by code_simp
  have m: "\<forall>i<nat 1. name_mem all_ok i \<noteq> NULL"
    by (simp add: all_ok_def)
  have "map_sum id (map_option (map cstr))
     (thread_pool_get_running_task_names 100 5 (name_mem all_ok) idle_final)
     = Inr (Some [''[idle]''])"
    using idle_names_after_create [OF demo_created _ r _ _ m, of 5] by simp
  then show ?thesis
    using demo_created r w by blast
qed

text \<open>
  Claim C9. After a successful \<open>thread_pool_add_task\<close> the new node holds the function
  and the argument, and a name buffer of \<open>MAX_TASK_NAME_LEN\<close> bytes whose last byte is
  \<open>NUL\<close>. The string in it is \<open>unnamed_task\<close> when the name pointer was \<open>NULL\<close>, and
  otherwise the first \<open>MAX_TASK_NAME_LEN - 1\<close> characters of the name given: the whole
  name when it is that short (the empty string stays empty), its first 63 characters
  when it is longer.
\<close>

theorem add_task_stored_name:
  assumes "thread_pool_add_task h f x name new_node w s = Inr (0, s')"
  shows "\<exists>nd. fmlookup (nodes s') new_node = Some nd \<and> nxt nd = NULL \<and>
           func (task nd) = f \<and> arg (task nd) = x \<and>
           length (task_name (task nd)) = MAX_TASK_NAME_LEN \<and>
           task_name (task nd) ! (MAX_TASK_NAME_LEN - 1) = NUL \<and>
           cstr (task_name (task nd)) =
             (case name of
                None \<Rightarrow> ''unnamed_task''
              | Some src \<Rightarrow> take (MAX_TASK_NAME_LEN - 1) (cstr src))"
proof -
  define src0 where "src0 = (case name of Some src \<Rightarrow> src | None \<Rightarrow> ''unnamed_task'')"
  from add_task_cases [OF assms] obtain t s1 where t: "func t = f" "arg t = x"
      "task_name t = (strncpy fresh_buf src0 (MAX_TASK_NAME_LEN - 1))[MAX_TASK_NAME_LEN - 1 := NUL]"
      "task_enqueue_internal t new_node s = Inr (0, s1)"
      "s' = s1\<lparr>hist := (hist s1)\<lparr>enqueue_calls := Suc (enqueue_calls (hist s1)),
                                 enqueued := enqueued (hist s1) @ [t]\<rparr>,
              workers := cond_signal w (workers s1)\<rparr>"
    unfolding src0_def by auto
  have l: "length fresh_buf = MAX_TASK_NAME_LEN"
    by (simp add: fresh_buf_def)
  have n: "task_name t
      = take (MAX_TASK_NAME_LEN - 1) (cstr src0 @ replicate (MAX_TASK_NAME_LEN - 1) NUL) @ [NUL]"
    unfolding t(3) using l by (rule name_buf_any)
  have len: "length (task_name t) = MAX_TASK_NAME_LEN"
    unfolding t(3) using l by (rule name_buf_length)
  have last: "task_name t ! (MAX_TASK_NAME_LEN - 1) = NUL"
    unfolding t(3) by (simp add: strncpy_def fresh_buf_def MAX_TASK_NAME_LEN_def)
  have c: "cstr (task_name t) = take (MAX_TASK_NAME_LEN - 1) (cstr src0)"
    unfolding n by (rule cstr_padded)
  have c': "cstr (task_name t) =
             (case name of
                None \<Rightarrow> ''unnamed_task''
              | Some src \<Rightarrow> take (MAX_TASK_NAME_LEN - 1) (cstr src))"
    unfolding c src0_def by (cases name) (simp_all only: option.case default_name)
  have "fmlookup (nodes s') new_node = Some \<lparr>task = t, nxt = NULL\<rparr>"
    using enqueue_node [OF t(4)] t(5) by simp
  then show ?thesis
    using t(1,2) len last c' by (intro exI [of _ "\<lparr>task = t, nxt = NULL\<rparr>"]) simp
qed

theorem add_task_stored_name_witness:
  "map_sum id fst (thread_pool_add_task 100 7 8 (Some []) 1 0 demo_pool) = Inr 0 \<and>
   stored_name (snd (projr (thread_pool_add_task 100 7 8 (Some []) 1 0 demo_pool))) 1 = Some [] \<and>
   stored_name (snd (projr (thread_pool_add_task 100 7 8 None 1 0 demo_pool))) 1
     = Some ''unnamed_task'' \<and>
   length long_name = 70 \<and>
   stored_name (snd (projr (thread_pool_add_task 100 7 8 (Some long_name) 1 0 demo_pool))) 1
     = Some (replicate 63 (CHR ''a''))"
proof -
  have a: "thread_pool_add_task 100 7 8 (Some []) 1 0 demo_pool
      = Inr (0, snd (projr (thread_pool_add_task 100 7 8 (Some []) 1 0 demo_pool)))"
    by code_simp
  have "stored_name (snd (projr (thread_pool_add_task 100 7 8 (Some []) 1 0 demo_pool))) 1
      = Some []"
    using add_task_stored_name [OF a]
    by (auto simp: stored_name_def cstr_def)
  moreover have "map_sum id fst (thread_pool_add_task 100 7 8 (Some []) 1 0 demo_pool) = Inr 0"
    by code_simp
  moreover have "stored_name (snd (projr (thread_pool_add_task 100 7 8 None 1 0 demo_pool))) 1
     = Some ''unnamed_task''"
    by code_simp
  moreover have "length long_name = 70"
    by (simp add: long_name_def)
  moreover have "stored_name
      (snd (projr (thread_pool_add_task 100 7 8 (Some long_name) 1 0 demo_pool))) 1
     = Some (replicate 63 (CHR ''a''))"
    by code_simp
  ultimately show ?thesis
    by blast
qed

end
